theory Spec2Isabelle
  imports Main
begin

unbundle bit_operations_syntax

section \<open>Python values\<close>

text \<open>
  A Python \<open>str\<close> is a sequence of code points, and \<open>len\<close> counts code points; a
  \<open>bytes\<close> object is a sequence of numbers below 256.  JSON numbers are Python
  \<open>int\<close>s here: IEEE arithmetic, \<open>round(d, 10)\<close> and \<open>repr\<close> of a \<open>float\<close> are
  not part of this development, so every statement below is about values whose
  numbers are integers.  \<open>bool\<close> is a subclass of \<open>int\<close> in Python, which the
  \<open>isinstance\<close> tests of the source see; \<open>as_int\<close> is that reading.
\<close>

type_synonym codepoint = nat
type_synonym pystr = "codepoint list"
type_synonym pybytes = "nat list"

definition lit :: "string \<Rightarrow> pystr" where
  "lit s = map of_char s"

datatype json =
    JNull
  | JBool bool
  | JInt int
  | JStr pystr
  | JArr "json list"
  | JObj "(pystr \<times> json) list"

datatype error =
    StructError
  | UnicodeEncodeError
  | UnicodeDecodeError
  | BinasciiError
  | ValueError
  | TypeError
  | KeyError
  | IndexError
  | AttributeError
  | OutOfFuel
  | Unmodelled

text \<open>
  \<open>Unmodelled\<close> marks the places where Python goes on with a value that is not a JSON
  tree over integers (a \<open>float\<close>, a dictionary with a key that is no \<open>str\<close>, a digit
  that is not ASCII); it is never the model of an exception.
\<close>

fun as_int :: "json \<Rightarrow> int option" where
  "as_int (JBool b) = Some (if b then 1 else 0)"
| "as_int (JInt i) = Some i"
| "as_int _ = None"

fun as_bool :: "json \<Rightarrow> bool option" where
  "as_bool (JBool b) = Some b"
| "as_bool _ = None"

fun as_dict :: "json \<Rightarrow> (pystr \<times> json) list option" where
  "as_dict (JObj d) = Some d"
| "as_dict _ = None"

text \<open>\<open>all(isinstance(x, T) for x in xs)\<close>, with the values read at type \<open>T\<close>.\<close>

fun all_of :: "('a \<Rightarrow> 'b option) \<Rightarrow> 'a list \<Rightarrow> 'b list option" where
  "all_of f [] = Some []"
| "all_of f (x # xs) =
     (case f x of None \<Rightarrow> None
      | Some y \<Rightarrow> (case all_of f xs of None \<Rightarrow> None | Some ys \<Rightarrow> Some (y # ys)))"

text \<open>A \<open>dict\<close> keeps insertion order; assigning to a key that is present keeps its place.\<close>

fun dict_set :: "('k \<times> 'v) list \<Rightarrow> 'k \<Rightarrow> 'v \<Rightarrow> ('k \<times> 'v) list" where
  "dict_set [] k v = [(k, v)]"
| "dict_set ((k', v') # d) k v = (if k' = k then (k, v) # d else (k', v') # dict_set d k v)"

definition has_key :: "(pystr \<times> json) list \<Rightarrow> pystr \<Rightarrow> bool" where
  "has_key d k = (map_of d k \<noteq> None)"

definition getitem :: "(pystr \<times> json) list \<Rightarrow> pystr \<Rightarrow> error + json" where
  "getitem d k = (case map_of d k of None \<Rightarrow> Inl KeyError | Some v \<Rightarrow> Inr v)"

text \<open>Python's \<open>==\<close> on these values: \<open>True == 1\<close>, and dictionaries compare without order.\<close>

fun py_eq :: "json \<Rightarrow> json \<Rightarrow> bool" where
  "py_eq JNull y = (y = JNull)"
| "py_eq (JBool b) y = (as_int y = Some (if b then 1 else 0))"
| "py_eq (JInt i) y = (as_int y = Some i)"
| "py_eq (JStr s) y = (y = JStr s)"
| "py_eq (JArr xs) y =
     (case y of JArr ys \<Rightarrow> list_all2 py_eq xs ys | _ \<Rightarrow> False)"
| "py_eq (JObj d) y =
     (case y of
        JObj e \<Rightarrow>
          length d = length e \<and>
          list_all (\<lambda>(k, v). case map_of e k of None \<Rightarrow> False | Some w \<Rightarrow> py_eq v w) d
      | _ \<Rightarrow> False)"

section \<open>Text of numbers\<close>

text \<open>\<open>str(n)\<close> of an \<open>int\<close>, as \<open>json.dumps\<close> and the f-string of the source write it.\<close>

function nat_str :: "nat \<Rightarrow> pystr" where
  "nat_str n = (if n < 10 then [48 + n] else nat_str (n div 10) @ [48 + n mod 10])"
  by pat_completeness auto
termination
  by (relation "measure id") auto

declare nat_str.simps [simp del]

definition int_str :: "int \<Rightarrow> pystr" where
  "int_str i = (if i < 0 then 45 # nat_str (nat (- i)) else nat_str (nat i))"

section \<open>The key dictionary\<close>

definition chars62 :: pystr where
  "chars62 = lit ''0123456789ABCDEFGHIJKLMNOPQRSTUVWXYZabcdefghijklmnopqrstuvwxyz''"

text \<open>The \<open>while num:\<close> loop of \<open>_encode_base62\<close>; \<open>result\<close> grows at its end.\<close>

function base62_loop :: "nat \<Rightarrow> pystr \<Rightarrow> pystr" where
  "base62_loop num result =
     (if num = 0 then result
      else base62_loop (num div 62) (result @ [chars62 ! (num mod 62)]))"
  by pat_completeness auto
termination
  by (relation "measure fst") auto

declare base62_loop.simps [simp del]

definition encode_base62 :: "nat \<Rightarrow> pystr" where
  "encode_base62 num = (if num = 0 then [chars62 ! 0] else rev (base62_loop num []))"

record compressor =
  key_map :: "(pystr \<times> pystr) list"
  key_counter :: nat

definition new_compressor :: compressor where
  "new_compressor = \<lparr>key_map = [], key_counter = 0\<rparr>"

text \<open>\<open>compressed_readable.py\<close>: every key is given a code.\<close>

definition get_short_key :: "pystr \<Rightarrow> compressor \<Rightarrow> pystr \<times> compressor" where
  "get_short_key original_key st =
     (case map_of (key_map st) original_key of
        Some short_key \<Rightarrow> (short_key, st)
      | None \<Rightarrow>
          (let short_key = encode_base62 (key_counter st)
           in (short_key,
               st\<lparr>key_map := key_map st @ [(original_key, short_key)],
                  key_counter := key_counter st + 1\<rparr>)))"

text \<open>\<open>json_compressor.py\<close>: only keys longer than \<open>min_key_length\<close> are given a code.\<close>

definition min_key_length :: nat where
  "min_key_length = 6"

definition jc_get_short_key :: "pystr \<Rightarrow> compressor \<Rightarrow> pystr \<times> compressor" where
  "jc_get_short_key original_key st =
     (if length original_key \<le> min_key_length then (original_key, st)
      else get_short_key original_key st)"

section \<open>Library encodings: UTF-8, base64, struct\<close>

text \<open>
  \<open>str.encode('utf-8')\<close>: one to four bytes for a code point; a surrogate
  (\<open>U+D800\<close> to \<open>U+DFFF\<close>) raises \<open>UnicodeEncodeError\<close>.  A Python \<open>str\<close> holds no
  number from \<open>0x110000\<close> on.
\<close>

definition utf8_char :: "codepoint \<Rightarrow> error + pybytes" where
  "utf8_char c =
     (if c < 0x80 then Inr [c]
      else if c < 0x800 then Inr [0xC0 + c div 64, 0x80 + c mod 64]
      else if 0xD800 \<le> c \<and> c \<le> 0xDFFF then Inl UnicodeEncodeError
      else if c < 0x10000 then
        Inr [0xE0 + c div 4096, 0x80 + (c div 64) mod 64, 0x80 + c mod 64]
      else if c < 0x110000 then
        Inr [0xF0 + c div 262144, 0x80 + (c div 4096) mod 64,
             0x80 + (c div 64) mod 64, 0x80 + c mod 64]
      else Inl Unmodelled)"

fun utf8_encode :: "pystr \<Rightarrow> error + pybytes" where
  "utf8_encode [] = Inr []"
| "utf8_encode (c # cs) =
     (case utf8_char c of
        Inl e \<Rightarrow> Inl e
      | Inr bs \<Rightarrow> (case utf8_encode cs of Inl e \<Rightarrow> Inl e | Inr rest \<Rightarrow> Inr (bs @ rest)))"

text \<open>
  \<open>bytes.decode('utf-8')\<close>, strict: a continuation byte is \<open>0x80\<close> to \<open>0xBF\<close>; overlong
  forms, surrogates and anything above \<open>U+10FFFF\<close> raise \<open>UnicodeDecodeError\<close>.
\<close>

definition is_cont :: "nat \<Rightarrow> bool" where
  "is_cont b = (0x80 \<le> b \<and> b \<le> 0xBF)"

fun utf8_decode :: "pybytes \<Rightarrow> error + pystr" where
  "utf8_decode [] = Inr []"
| "utf8_decode (b # bs) =
     (if b < 0x80 then
        (case utf8_decode bs of Inl e \<Rightarrow> Inl e | Inr cs \<Rightarrow> Inr (b # cs))
      else if 0xC2 \<le> b \<and> b \<le> 0xDF then
        (case bs of
           b1 # r \<Rightarrow>
             (if is_cont b1 then
                (case utf8_decode r of Inl e \<Rightarrow> Inl e
                 | Inr cs \<Rightarrow> Inr (((b - 0xC0) * 64 + (b1 - 0x80)) # cs))
              else Inl UnicodeDecodeError)
         | _ \<Rightarrow> Inl UnicodeDecodeError)
      else if 0xE0 \<le> b \<and> b \<le> 0xEF then
        (case bs of
           b1 # b2 # r \<Rightarrow>
             (if is_cont b1 \<and> is_cont b2 \<and> (if b = 0xE0 then 0xA0 \<le> b1 else True) \<and> (if b = 0xED then b1 \<le> 0x9F else True) then
                (case utf8_decode r of Inl e \<Rightarrow> Inl e
                 | Inr cs \<Rightarrow> Inr (((b - 0xE0) * 4096 + (b1 - 0x80) * 64 + (b2 - 0x80)) # cs))
              else Inl UnicodeDecodeError)
         | _ \<Rightarrow> Inl UnicodeDecodeError)
      else if 0xF0 \<le> b \<and> b \<le> 0xF4 then
        (case bs of
           b1 # b2 # b3 # r \<Rightarrow>
             (if is_cont b1 \<and> is_cont b2 \<and> is_cont b3 \<and> (if b = 0xF0 then 0x90 \<le> b1 else True) \<and> (if b = 0xF4 then b1 \<le> 0x8F else True) then
                (case utf8_decode r of Inl e \<Rightarrow> Inl e
                 | Inr cs \<Rightarrow>
                     Inr (((b - 0xF0) * 262144 + (b1 - 0x80) * 4096 + (b2 - 0x80) * 64 + (b3 - 0x80)) # cs))
              else Inl UnicodeDecodeError)
         | _ \<Rightarrow> Inl UnicodeDecodeError)
      else Inl UnicodeDecodeError)"

definition b64chars :: pystr where
  "b64chars = lit ''ABCDEFGHIJKLMNOPQRSTUVWXYZabcdefghijklmnopqrstuvwxyz0123456789+/''"

text \<open>\<open>base64.b64encode\<close>: three bytes become four characters, \<open>=\<close> (61) pads the last group.\<close>

fun b64encode :: "pybytes \<Rightarrow> pystr" where
  "b64encode [] = []"
| "b64encode [a] = [b64chars ! (a div 4), b64chars ! ((a mod 4) * 16), 61, 61]"
| "b64encode [a, b] =
     [b64chars ! (a div 4), b64chars ! ((a mod 4) * 16 + b div 16),
      b64chars ! ((b mod 16) * 4), 61]"
| "b64encode (a # b # c # rest) =
     [b64chars ! (a div 4), b64chars ! ((a mod 4) * 16 + b div 16),
      b64chars ! ((b mod 16) * 4 + c div 64), b64chars ! (c mod 64)] @ b64encode rest"

fun index_of :: "'a list \<Rightarrow> 'a \<Rightarrow> nat option" where
  "index_of [] x = None"
| "index_of (y # ys) x = (if y = x then Some 0 else map_option Suc (index_of ys x))"

text \<open>
  \<open>binascii.a2b_base64\<close> as \<open>base64.b64decode\<close> calls it (not strict): characters outside
  the alphabet are skipped, the six-bit values are joined in groups of four (the bit
  fields do not overlap, so the \<open>|\<close> of the C code is a sum), a pad sequence that
  completes a group ends the input, and an incomplete group at the end raises
  \<open>binascii.Error\<close>.
\<close>

fun a2b_base64 :: "pystr \<Rightarrow> nat \<Rightarrow> nat \<Rightarrow> nat \<Rightarrow> pybytes \<Rightarrow> error + pybytes" where
  "a2b_base64 [] quad_pos leftchar pads bin_data =
     (if quad_pos \<noteq> 0 then Inl BinasciiError else Inr bin_data)"
| "a2b_base64 (this_ch # rest) quad_pos leftchar pads bin_data =
     (if this_ch = 61 then
        (if 2 \<le> quad_pos then
           (if 4 \<le> quad_pos + (pads + 1) then Inr bin_data
            else a2b_base64 rest quad_pos leftchar (pads + 1) bin_data)
         else a2b_base64 rest quad_pos leftchar pads bin_data)
      else
        (case index_of b64chars this_ch of
           None \<Rightarrow> a2b_base64 rest quad_pos leftchar pads bin_data
         | Some v \<Rightarrow>
             (if quad_pos = 0 then a2b_base64 rest 1 v 0 bin_data
              else if quad_pos = 1 then
                a2b_base64 rest 2 (v mod 16) 0 (bin_data @ [leftchar * 4 + v div 16])
              else if quad_pos = 2 then
                a2b_base64 rest 3 (v mod 4) 0 (bin_data @ [leftchar * 16 + v div 4])
              else a2b_base64 rest 0 0 0 (bin_data @ [leftchar * 64 + v]))))"

text \<open>\<open>base64.b64decode(s)\<close> of a \<open>str\<close>: a character that is not ASCII raises \<open>ValueError\<close>.\<close>

definition b64decode :: "pystr \<Rightarrow> error + pybytes" where
  "b64decode s =
     (if list_all (\<lambda>c. c < 128) s then a2b_base64 s 0 0 0 [] else Inl ValueError)"

text \<open>
  \<open>struct.pack\<close> of one signed integer in \<open>width\<close> bytes (formats \<open>b\<close>, \<open>h\<close>, \<open>i\<close>: 1, 2
  and 4 bytes, two's complement, least significant byte first): a value outside the
  range of the format raises \<open>struct.error\<close>.
\<close>

fun le_bytes :: "nat \<Rightarrow> nat \<Rightarrow> pybytes" where
  "le_bytes 0 n = []"
| "le_bytes (Suc k) n = (n mod 256) # le_bytes k (n div 256)"

definition pack_int :: "nat \<Rightarrow> int \<Rightarrow> error + pybytes" where
  "pack_int width n =
     (if - (2 ^ (8 * width - 1)) \<le> n \<and> n < 2 ^ (8 * width - 1)
      then Inr (le_bytes width (nat (n mod 2 ^ (8 * width))))
      else Inl StructError)"

fun struct_pack :: "nat \<Rightarrow> int list \<Rightarrow> error + pybytes" where
  "struct_pack width [] = Inr []"
| "struct_pack width (n # ns) =
     (case pack_int width n of
        Inl e \<Rightarrow> Inl e
      | Inr bs \<Rightarrow> (case struct_pack width ns of Inl e \<Rightarrow> Inl e | Inr rest \<Rightarrow> Inr (bs @ rest)))"

fun from_le :: "pybytes \<Rightarrow> nat" where
  "from_le [] = 0"
| "from_le (b # bs) = b + 256 * from_le bs"

definition unpack_int :: "nat \<Rightarrow> pybytes \<Rightarrow> int" where
  "unpack_int width bs =
     (let u = int (from_le bs)
      in if u < 2 ^ (8 * width - 1) then u else u - 2 ^ (8 * width))"

text \<open>
  \<open>struct.unpack(f'{len(packed)//width}<fmt>', packed)\<close>: the buffer must have exactly
  \<open>width * (len(packed)//width)\<close> bytes, else \<open>struct.error\<close>.
\<close>

fun chunks :: "nat \<Rightarrow> nat \<Rightarrow> 'a list \<Rightarrow> 'a list list" where
  "chunks width 0 xs = []"
| "chunks width (Suc k) xs = take width xs # chunks width k (drop width xs)"

definition struct_unpack :: "nat \<Rightarrow> pybytes \<Rightarrow> error + int list" where
  "struct_unpack width packed =
     (if length packed mod width = 0
      then Inr (map (unpack_int width) (chunks width (length packed div width) packed))
      else Inl StructError)"

section \<open>Array encodings of \<open>compressed_readable.py\<close>\<close>

text \<open>
  \<open>_pack_numbers\<close>.  The elements are integers here, so the third test of the source
  (\<open>all(isinstance(n, int) for n in numbers)\<close>) holds whenever the first two fail, and
  its last branch (format \<open>d\<close>) is taken only for a list with a \<open>float\<close>.  The third
  branch packs with format \<open>i\<close> without a test of the range.
\<close>

definition pack_numbers :: "int list \<Rightarrow> error + pystr" where
  "pack_numbers numbers =
     (if list_all (\<lambda>n. - 128 \<le> n \<and> n \<le> 127) numbers then
        (case struct_pack 1 numbers of
           Inl e \<Rightarrow> Inl e | Inr packed \<Rightarrow> Inr (lit ''B'' @ b64encode packed))
      else if list_all (\<lambda>n. - 32768 \<le> n \<and> n \<le> 32767) numbers then
        (case struct_pack 2 numbers of
           Inl e \<Rightarrow> Inl e | Inr packed \<Rightarrow> Inr (lit ''H'' @ b64encode packed))
      else
        (case struct_pack 4 numbers of
           Inl e \<Rightarrow> Inl e | Inr packed \<Rightarrow> Inr (lit ''I'' @ b64encode packed)))"

text \<open>
  \<open>_pack_booleans\<close>: the loop over \<open>enumerate(bools)\<close> sets bit \<open>i % 8\<close> of byte
  \<open>i // 8\<close>; the index is within the \<open>bytearray\<close> since it has \<open>(len(bools) + 7) // 8\<close>
  bytes.
\<close>

fun set_bits :: "bool list \<Rightarrow> nat \<Rightarrow> pybytes \<Rightarrow> pybytes" where
  "set_bits [] i byte_array = byte_array"
| "set_bits (b # bools) i byte_array =
     set_bits bools (i + 1)
       (if b then byte_array[i div 8 := (byte_array ! (i div 8)) OR (push_bit (i mod 8) 1)]
        else byte_array)"

definition pack_booleans :: "bool list \<Rightarrow> pystr" where
  "pack_booleans bools =
     (let bytes_needed = (length bools + 7) div 8;
          byte_array = set_bits bools 0 (replicate bytes_needed 0)
      in lit ''T'' @ b64encode byte_array @ lit '':'' @ nat_str (length bools))"

fun deltas :: "int list \<Rightarrow> int list" where
  "deltas (a # b # rest) = (b - a) # deltas (b # rest)"
| "deltas _ = []"

text \<open>\<open>_is_sequential\<close>: \<open>round(d, 10)\<close> of an \<open>int\<close> is the \<open>int\<close>; the \<open>set\<close> has one element.\<close>

definition is_sequential :: "json list \<Rightarrow> bool" where
  "is_sequential numbers =
     (if length numbers < 3 then False
      else (case all_of as_int numbers of
              None \<Rightarrow> False
            | Some ns \<Rightarrow> length (remdups (deltas ns)) = 1))"

definition is_constant :: "json list \<Rightarrow> bool" where
  "is_constant values =
     (case values of [] \<Rightarrow> False | v0 # _ \<Rightarrow> list_all (\<lambda>v. py_eq v v0) values)"

text \<open>Python's \<open>-\<close> on two of these values.\<close>

definition py_sub :: "json \<Rightarrow> json \<Rightarrow> error + json" where
  "py_sub a b =
     (case (as_int a, as_int b) of
        (Some x, Some y) \<Rightarrow> Inr (JInt (x - y))
      | _ \<Rightarrow> Inl TypeError)"

text \<open>\<open>{"c": c, "n": len(values)}\<close> and \<open>{"s": values[0], "d": values[1] - values[0], "n": len(values)}\<close>.\<close>

definition constant_record :: "json \<Rightarrow> json list \<Rightarrow> json" where
  "constant_record c values = JObj [(lit ''c'', c), (lit ''n'', JInt (int (length values)))]"

definition delta_record :: "json list \<Rightarrow> error + json" where
  "delta_record values =
     (case values of
        a # b # _ \<Rightarrow>
          (case py_sub b a of
             Inl e \<Rightarrow> Inl e
           | Inr d \<Rightarrow>
               Inr (JObj [(lit ''s'', a), (lit ''d'', d), (lit ''n'', JInt (int (length values)))]))
      | _ \<Rightarrow> Inl IndexError)"

text \<open>
  The first two blocks of \<open>_compress_array\<close>, for a non-empty \<open>arr\<close>; \<open>None\<close> when the
  block does not return and control goes on to the next one.
\<close>

definition boolean_array :: "json list \<Rightarrow> json option" where
  "boolean_array arr =
     (case all_of as_bool arr of
        None \<Rightarrow> None
      | Some bools \<Rightarrow>
          (if is_constant arr then
             (case arr of [] \<Rightarrow> None | a0 # _ \<Rightarrow> Some (constant_record a0 arr))
           else if 3 \<le> length arr then Some (JStr (pack_booleans bools))
           else None))"

definition numeric_array :: "json list \<Rightarrow> (error + json) option" where
  "numeric_array arr =
     (case all_of as_int arr of
        None \<Rightarrow> None
      | Some ns \<Rightarrow>
          (if is_sequential arr then Some (delta_record arr)
           else if is_constant arr then
             (case arr of [] \<Rightarrow> None | a0 # _ \<Rightarrow> Some (Inr (constant_record a0 arr)))
           else if 3 \<le> length arr then
             Some (case pack_numbers ns of Inl e \<Rightarrow> Inl e | Inr s \<Rightarrow> Inr (JStr s))
           else None))"

section \<open>The encoder of \<open>compressed_readable.py\<close>\<close>

text \<open>A list comprehension whose body changes the compressor, and may raise.\<close>

fun map_state :: "('a \<Rightarrow> 's \<Rightarrow> error + 'b \<times> 's) \<Rightarrow> 'a list \<Rightarrow> 's \<Rightarrow> error + 'b list \<times> 's" where
  "map_state f [] st = Inr ([], st)"
| "map_state f (x # xs) st =
     (case f x st of
        Inl e \<Rightarrow> Inl e
      | Inr (y, st') \<Rightarrow>
          (case map_state f xs st' of Inl e \<Rightarrow> Inl e | Inr (ys, st'') \<Rightarrow> Inr (y # ys, st'')))"

lemma map_state_cong [fundef_cong]:
  "xs = ys \<Longrightarrow> st = st' \<Longrightarrow> (\<And>x s. x \<in> set ys \<Longrightarrow> f x s = g x s) \<Longrightarrow>
     map_state f xs st = map_state g ys st'"
proof (induction ys arbitrary: xs st st')
  case Nil
  then show ?case by simp
next
  case (Cons y ys)
  have "map_state f ys s = map_state g ys s" for s
    using Cons.IH [OF refl refl] Cons.prems(3) by simp
  with Cons.prems show ?case
    by (simp split: sum.splits)
qed

text \<open>\<open>[self._get_short_key(k) for k in keys]\<close>.\<close>

fun short_keys_of :: "pystr list \<Rightarrow> compressor \<Rightarrow> pystr list \<times> compressor" where
  "short_keys_of [] st = ([], st)"
| "short_keys_of (k # keys) st =
     (let (short_key, st') = get_short_key k st;
          (rest, st'') = short_keys_of keys st'
      in (short_key # rest, st''))"

text \<open>\<open>[item[orig_key] for item in arr]\<close>.\<close>

fun column_of :: "pystr \<Rightarrow> (pystr \<times> json) list list \<Rightarrow> error + json list" where
  "column_of orig_key [] = Inr []"
| "column_of orig_key (item # arr) =
     (case getitem item orig_key of
        Inl e \<Rightarrow> Inl e
      | Inr v \<Rightarrow> (case column_of orig_key arr of Inl e \<Rightarrow> Inl e | Inr vs \<Rightarrow> Inr (v # vs)))"

lemma all_of_as_dict: "all_of as_dict arr = Some dicts \<Longrightarrow> arr = map JObj dicts"
proof (induction arr arbitrary: dicts)
  case Nil
  then show ?case by simp
next
  case (Cons a arr)
  then show ?case
    by (cases a) (auto split: option.splits)
qed

lemma map_of_size: "map_of d k = Some v \<Longrightarrow> size v < Suc (size_list (size_prod (\<lambda>_. 0) size) d)"
  by (induction d) (auto split: if_splits)

lemma column_of_size:
  "column_of k dicts = Inr vs \<Longrightarrow> v \<in> set vs \<Longrightarrow> size v < size (JArr (map JObj dicts))"
proof (induction dicts arbitrary: vs)
  case Nil
  then show ?case by simp
next
  case (Cons d dicts)
  from Cons.prems obtain w ws where w: "getitem d k = Inr w" and ws: "column_of k dicts = Inr ws"
    and vs: "vs = w # ws"
    by (auto split: sum.splits)
  show ?case
  proof (cases "v = w")
    case True
    from w have "map_of d k = Some w"
      by (auto simp: getitem_def split: option.splits)
    from map_of_size [OF this] True show ?thesis by simp
  next
    case False
    with Cons.prems vs have "v \<in> set ws" by simp
    from Cons.IH [OF ws this] show ?thesis by simp
  qed
qed

text \<open>
  The test of the third block of \<open>_compress_array\<close>: every element is a \<open>dict\<close> and
  \<open>set(item.keys()) == set(arr[0].keys())\<close> for each of them.
\<close>

definition homogeneous_objects ::
  "json list \<Rightarrow> ((pystr \<times> json) list \<times> (pystr \<times> json) list list) option" where
  "homogeneous_objects arr =
     (case all_of as_dict arr of
        Some (first # others) \<Rightarrow>
          (if list_all (\<lambda>item. set (map fst item) = set (map fst first)) (first # others)
           then Some (first, first # others) else None)
      | _ \<Rightarrow> None)"

lemma homogeneous_objects_map:
  "homogeneous_objects arr = Some (first, dicts) \<Longrightarrow> arr = map JObj dicts"
  by (auto simp: homogeneous_objects_def all_of_as_dict split: option.splits list.splits if_splits)

lemma element_size: "x \<in> set arr \<Longrightarrow> 2 * size x < Suc (2 * size_list size arr)"
proof -
  assume "x \<in> set arr"
  then have "size x \<le> size_list size arr"
    by (simp add: size_list_estimation')
  then show ?thesis by simp
qed

lemma column_value_size:
  assumes "homogeneous_objects arr = Some (first, dicts)" and "column_of k dicts = Inr vs"
    and "v \<in> set vs"
  shows "2 * size v < Suc (2 * size_list size arr)"
  using column_of_size [OF assms(2,3)] homogeneous_objects_map [OF assms(1)] by simp

lemma column_head_size:
  assumes "homogeneous_objects arr = Some (first, dicts)" and "column_of k dicts = Inr (v # vs)"
  shows "2 * size v < Suc (2 * size_list size arr)"
  using column_value_size [OF assms, of v] by simp

function compress_value :: "json \<Rightarrow> compressor \<Rightarrow> error + json \<times> compressor"
  and compress_array :: "json list \<Rightarrow> compressor \<Rightarrow> error + json \<times> compressor"
  and compress_object ::
    "(pystr \<times> json) list \<Rightarrow> (pystr \<times> json) list \<Rightarrow> compressor \<Rightarrow> error + json \<times> compressor"
where
  "compress_value (JObj obj) st = compress_object obj [] st"
| "compress_value (JArr arr) st = compress_array arr st"
| "compress_value JNull st = Inr (JNull, st)"
| "compress_value (JBool b) st = Inr (JBool b, st)"
| "compress_value (JInt i) st = Inr (JInt i, st)"
| "compress_value (JStr s) st =
     (if 20 < length s then
        (case utf8_encode s of
           Inl e \<Rightarrow> Inl e
         | Inr bs \<Rightarrow>
             (let encoded = b64encode bs
              in if length encoded < length s then Inr (JStr (lit ''S'' @ encoded), st)
                 else Inr (JStr s, st)))
      else Inr (JStr s, st))"
| "compress_array arr st =
     (if arr = [] then Inr (JArr arr, st)
      else
        (case boolean_array arr of
           Some r \<Rightarrow> Inr (r, st)
         | None \<Rightarrow>
        (case numeric_array arr of
           Some (Inl e) \<Rightarrow> Inl e
         | Some (Inr r) \<Rightarrow> Inr (r, st)
         | None \<Rightarrow>
        (case homogeneous_objects arr of
           Some (first, dicts) \<Rightarrow>
             (let keys = map fst first;
                  (short_keys, st1) = short_keys_of keys st
              in case map_state
                   (\<lambda>orig_key st.
                      (case column_of orig_key dicts of
                         Inl e \<Rightarrow> Inl e
                       | Inr col_values \<Rightarrow>
                           (if is_constant col_values then
                              (case col_values of
                                 [] \<Rightarrow> Inl IndexError
                               | v0 # _ \<Rightarrow>
                                   (case compress_value v0 st of
                                      Inl e \<Rightarrow> Inl e
                                    | Inr (c, st') \<Rightarrow> Inr (constant_record c col_values, st')))
                            else if is_sequential col_values then
                              (case delta_record col_values of
                                 Inl e \<Rightarrow> Inl e | Inr r \<Rightarrow> Inr (r, st))
                            else
                              (case (if 3 \<le> length col_values then all_of as_bool col_values
                                     else None) of
                                 Some bools \<Rightarrow> Inr (JStr (pack_booleans bools), st)
                               | None \<Rightarrow>
                              (case (if 3 \<le> length col_values then all_of as_int col_values
                                     else None) of
                                 Some ns \<Rightarrow>
                                   (case pack_numbers ns of
                                      Inl e \<Rightarrow> Inl e | Inr s \<Rightarrow> Inr (JStr s, st))
                               | None \<Rightarrow>
                                   (case map_state compress_value col_values st of
                                      Inl e \<Rightarrow> Inl e
                                    | Inr (vs, st') \<Rightarrow> Inr (JArr vs, st')))))))
                   keys st1 of
                   Inl e \<Rightarrow> Inl e
                 | Inr (columns, st2) \<Rightarrow>
                     Inr (JObj [(lit ''a'', JInt 1), (lit ''k'', JArr (map JStr short_keys)),
                                (lit ''d'', JArr columns)], st2))
         | None \<Rightarrow>
             (case map_state compress_value arr st of
                Inl e \<Rightarrow> Inl e
              | Inr (vs, st') \<Rightarrow> Inr (JArr vs, st'))))))"
| "compress_object [] compressed st = Inr (JObj compressed, st)"
| "compress_object ((key, v) # obj) compressed st =
     (let (short_key, st1) = get_short_key key st
      in case compress_value v st1 of
           Inl e \<Rightarrow> Inl e
         | Inr (c, st2) \<Rightarrow> compress_object obj (dict_set compressed short_key c) st2)"
  by pat_completeness auto
termination
  by (relation "measure (\<lambda>x. case x of
            Inl (v, st) \<Rightarrow> 2 * size v + 1
          | Inr (Inl (arr, st)) \<Rightarrow> 2 * size (JArr arr)
          | Inr (Inr (obj, acc, st)) \<Rightarrow> 2 * size (JObj obj))")
    (auto intro: element_size column_value_size column_head_size)

declare compress_array.simps [simp del]

section \<open>\<open>json.dumps(data, separators=(',', ':'))\<close>\<close>

text \<open>
  The text of a value: \<open>ensure_ascii\<close> is on, so a string keeps the characters from
  space (32) to \<open>~\<close> (126) except the quote (34) and the backslash (92), which get a
  backslash, as do backspace, form feed, newline, carriage return and tab; every other
  code point is written \<open>\uXXXX\<close>, above \<open>U+FFFF\<close> as a surrogate pair.
\<close>

definition hex4 :: "nat \<Rightarrow> pystr" where
  "hex4 n =
     map (\<lambda>d. lit ''0123456789abcdef'' ! d)
       [n div 4096 mod 16, n div 256 mod 16, n div 16 mod 16, n mod 16]"

definition escape_char :: "codepoint \<Rightarrow> pystr" where
  "escape_char c =
     (if c = 92 then [92, 92]
      else if c = 34 then [92, 34]
      else if c = 8 then [92, 98]
      else if c = 12 then [92, 102]
      else if c = 10 then [92, 110]
      else if c = 13 then [92, 114]
      else if c = 9 then [92, 116]
      else if 32 \<le> c \<and> c \<le> 126 then [c]
      else if c < 0x10000 then [92, 117] @ hex4 c
      else [92, 117] @ hex4 (0xD800 + (c - 0x10000) div 1024 mod 1024)
         @ [92, 117] @ hex4 (0xDC00 + (c - 0x10000) mod 1024))"

definition dumps_str :: "pystr \<Rightarrow> pystr" where
  "dumps_str s = [34] @ concat (map escape_char s) @ [34]"

fun join :: "pystr \<Rightarrow> pystr list \<Rightarrow> pystr" where
  "join sep [] = []"
| "join sep [x] = x"
| "join sep (x # y # rest) = x @ sep @ join sep (y # rest)"

fun dumps :: "json \<Rightarrow> pystr" where
  "dumps JNull = lit ''null''"
| "dumps (JBool b) = (if b then lit ''true'' else lit ''false'')"
| "dumps (JInt i) = int_str i"
| "dumps (JStr s) = dumps_str s"
| "dumps (JArr xs) = lit ''['' @ join (lit '','') (map dumps xs) @ lit '']''"
| "dumps (JObj d) =
     lit ''{'' @ join (lit '','') (map (\<lambda>(k, v). dumps_str k @ lit '':'' @ dumps v) d) @ lit ''}''"

section \<open>\<open>compress\<close> and \<open>compress_json\<close> of \<open>compressed_readable.py\<close>\<close>

definition envelope :: "json \<Rightarrow> compressor \<Rightarrow> json" where
  "envelope compressed_data st =
     JObj ((lit ''d'', compressed_data) #
           (if key_map st \<noteq> [] then [(lit ''m'', JObj (map (\<lambda>(k, c). (k, JStr c)) (key_map st)))]
            else []))"

definition compress :: "json \<Rightarrow> error + json" where
  "compress data =
     (case compress_value data new_compressor of
        Inl e \<Rightarrow> Inl e
      | Inr (compressed_data, st) \<Rightarrow> Inr (envelope compressed_data st))"

text \<open>
  \<open>compress_json\<close> returns a text.  \<open>compress_json_data\<close> is the value that text is
  the \<open>json.dumps\<close> of, which is the value \<open>json.loads\<close> reads back from it in
  \<open>decompress_json\<close> (the object keys are strings, and a string of Unicode scalar
  values is read back as it was written).
\<close>

definition compress_json_data :: "json \<Rightarrow> error + json" where
  "compress_json_data data =
     (let original_str = dumps data
      in case compress data of
           Inl e \<Rightarrow> Inl e
         | Inr compressed \<Rightarrow>
             (let compressed_str = dumps compressed
              in if length compressed_str < length original_str then Inr compressed
                 else Inr data))"

definition compress_json :: "json \<Rightarrow> error + pystr" where
  "compress_json data =
     (let original_str = dumps data
      in case compress data of
           Inl e \<Rightarrow> Inl e
         | Inr compressed \<Rightarrow>
             (let compressed_str = dumps compressed
              in if length compressed_str < length original_str then Inr compressed_str
                 else Inr original_str))"

section \<open>The encoder of \<open>json_compressor.py\<close>\<close>

text \<open>A loop whose body changes the state, and may raise.\<close>

fun fold_state :: "('a \<Rightarrow> 's \<Rightarrow> error + 's) \<Rightarrow> 'a list \<Rightarrow> 's \<Rightarrow> error + 's" where
  "fold_state f [] st = Inr st"
| "fold_state f (x # xs) st =
     (case f x st of Inl e \<Rightarrow> Inl e | Inr st' \<Rightarrow> fold_state f xs st')"

lemma fold_state_cong [fundef_cong]:
  "xs = ys \<Longrightarrow> st = st' \<Longrightarrow> (\<And>x s. x \<in> set ys \<Longrightarrow> f x s = g x s) \<Longrightarrow>
     fold_state f xs st = fold_state g ys st'"
proof (induction ys arbitrary: xs st st')
  case Nil
  then show ?case by simp
next
  case (Cons y ys)
  have "fold_state f ys s = fold_state g ys s" for s
    using Cons.IH [OF refl refl] Cons.prems(3) by simp
  with Cons.prems show ?case
    by (simp split: sum.splits)
qed

fun jc_short_keys_of :: "pystr list \<Rightarrow> compressor \<Rightarrow> pystr list \<times> compressor" where
  "jc_short_keys_of [] st = ([], st)"
| "jc_short_keys_of (k # keys) st =
     (let (short_key, st') = jc_get_short_key k st;
          (rest, st'') = jc_short_keys_of keys st'
      in (short_key # rest, st''))"

text \<open>
  \<open>columns[short_key].append(value)\<close>; every \<open>short_key\<close> is a key of \<open>columns\<close>, which
  starts as \<open>{sk: [] for sk in short_keys}\<close>.
\<close>

definition append_to :: "(pystr \<times> json list) list \<Rightarrow> pystr \<Rightarrow> json \<Rightarrow> (pystr \<times> json list) list" where
  "append_to columns short_key v =
     map (\<lambda>(k, vs). if k = short_key then (k, vs @ [v]) else (k, vs)) columns"

text \<open>\<open>[columns[sk] for sk in short_keys]\<close>.\<close>

fun columns_of :: "(pystr \<times> json list) list \<Rightarrow> pystr list \<Rightarrow> error + json list" where
  "columns_of columns [] = Inr []"
| "columns_of columns (sk # short_keys) =
     (case map_of columns sk of
        None \<Rightarrow> Inl KeyError
      | Some vs \<Rightarrow>
          (case columns_of columns short_keys of
             Inl e \<Rightarrow> Inl e | Inr rest \<Rightarrow> Inr (JArr vs # rest)))"

lemma item_value_size:
  assumes "homogeneous_objects arr = Some (first, dicts)" and "item \<in> set dicts"
    and "getitem item k = Inr v"
  shows "2 * size v < Suc (2 * size_list size arr)"
proof -
  from assms(3) have "map_of item k = Some v"
    by (auto simp: getitem_def split: option.splits)
  then have "size v < size (JObj item)"
    using map_of_size by fastforce
  moreover have "JObj item \<in> set arr"
    using homogeneous_objects_map [OF assms(1)] assms(2) by simp
  then have "size (JObj item) \<le> size_list size arr"
    by (simp add: size_list_estimation')
  ultimately show ?thesis by simp
qed

function jc_compress_value :: "json \<Rightarrow> compressor \<Rightarrow> error + json \<times> compressor"
  and jc_compress_array :: "json list \<Rightarrow> compressor \<Rightarrow> error + json \<times> compressor"
  and jc_compress_object ::
    "(pystr \<times> json) list \<Rightarrow> (pystr \<times> json) list \<Rightarrow> compressor \<Rightarrow> error + json \<times> compressor"
where
  "jc_compress_value (JObj obj) st = jc_compress_object obj [] st"
| "jc_compress_value (JArr arr) st = jc_compress_array arr st"
| "jc_compress_value JNull st = Inr (JNull, st)"
| "jc_compress_value (JBool b) st = Inr (JBool b, st)"
| "jc_compress_value (JInt i) st = Inr (JInt i, st)"
| "jc_compress_value (JStr s) st = Inr (JStr s, st)"
| "jc_compress_array arr st =
     (if arr = [] then Inr (JArr arr, st)
      else
        (case (case homogeneous_objects arr of
                 None \<Rightarrow> None
               | Some (first, dicts) \<Rightarrow> if 3 \<le> length arr then Some (first, dicts) else None) of
           Some (first, dicts) \<Rightarrow>
             (let keys = map fst first;
                  (short_keys, st1) = jc_short_keys_of keys st;
                  columns0 = fold (\<lambda>sk columns. dict_set columns sk []) short_keys []
              in case fold_state
                   (\<lambda>item.
                      fold_state
                        (\<lambda>(orig_key, short_key) (columns, st).
                           (case getitem item orig_key of
                              Inl e \<Rightarrow> Inl e
                            | Inr v \<Rightarrow>
                                (case jc_compress_value v st of
                                   Inl e \<Rightarrow> Inl e
                                 | Inr (c, st') \<Rightarrow> Inr (append_to columns short_key c, st'))))
                        (zip keys short_keys))
                   dicts (columns0, st1) of
                   Inl e \<Rightarrow> Inl e
                 | Inr (columns, st2) \<Rightarrow>
                     (case columns_of columns short_keys of
                        Inl e \<Rightarrow> Inl e
                      | Inr d \<Rightarrow>
                          Inr (JObj [(lit ''t'', JStr (lit ''a'')),
                                     (lit ''k'', JArr (map JStr short_keys)),
                                     (lit ''d'', JArr d)], st2)))
         | None \<Rightarrow>
             (case map_state jc_compress_value arr st of
                Inl e \<Rightarrow> Inl e
              | Inr (vs, st') \<Rightarrow> Inr (JArr vs, st'))))"
| "jc_compress_object [] compressed st = Inr (JObj compressed, st)"
| "jc_compress_object ((key, v) # obj) compressed st =
     (let (short_key, st1) = jc_get_short_key key st
      in case jc_compress_value v st1 of
           Inl e \<Rightarrow> Inl e
         | Inr (c, st2) \<Rightarrow> jc_compress_object obj (dict_set compressed short_key c) st2)"
  by pat_completeness auto
termination
  by (relation "measure (\<lambda>x. case x of
            Inl (v, st) \<Rightarrow> 2 * size v + 1
          | Inr (Inl (arr, st)) \<Rightarrow> 2 * size (JArr arr)
          | Inr (Inr (obj, acc, st)) \<Rightarrow> 2 * size (JObj obj))")
    (auto intro: element_size item_value_size split: option.splits if_splits)

declare jc_compress_array.simps [simp del]

definition jc_compress :: "json \<Rightarrow> error + json" where
  "jc_compress data =
     (case jc_compress_value data new_compressor of
        Inl e \<Rightarrow> Inl e
      | Inr (compressed_data, st) \<Rightarrow> Inr (envelope compressed_data st))"

definition jc_compress_json :: "json \<Rightarrow> error + pystr" where
  "jc_compress_json data =
     (let original_str = dumps data
      in case jc_compress data of
           Inl e \<Rightarrow> Inl e
         | Inr compressed \<Rightarrow>
             (let compressed_str = dumps compressed
              in if length compressed_str < length original_str then Inr compressed_str
                 else Inr original_str))"

section \<open>Python operations the decoder applies to parsed JSON\<close>

text \<open>A comprehension whose body may raise: the first exception ends it.\<close>

fun map_result :: "('a \<Rightarrow> error + 'b) \<Rightarrow> 'a list \<Rightarrow> error + 'b list" where
  "map_result f [] = Inr []"
| "map_result f (x # xs) =
     (case f x of
        Inl e \<Rightarrow> Inl e
      | Inr y \<Rightarrow> (case map_result f xs of Inl e \<Rightarrow> Inl e | Inr ys \<Rightarrow> Inr (y # ys)))"

lemma map_result_cong [fundef_cong]:
  "xs = ys \<Longrightarrow> (\<And>x. x \<in> set ys \<Longrightarrow> f x = g x) \<Longrightarrow> map_result f xs = map_result g ys"
  by (induction ys arbitrary: xs) (auto split: sum.splits)

text \<open>\<open>for x in v\<close>, \<open>len(v)\<close> and \<open>v[i]\<close> for an index \<open>i\<close> from a \<open>range\<close>.\<close>

definition py_iter :: "json \<Rightarrow> error + json list" where
  "py_iter v =
     (case v of
        JArr xs \<Rightarrow> Inr xs
      | JStr s \<Rightarrow> Inr (map (\<lambda>c. JStr [c]) s)
      | JObj d \<Rightarrow> Inr (map (\<lambda>(k, _). JStr k) d)
      | _ \<Rightarrow> Inl TypeError)"

definition py_len :: "json \<Rightarrow> error + nat" where
  "py_len v =
     (case v of
        JArr xs \<Rightarrow> Inr (length xs)
      | JStr s \<Rightarrow> Inr (length s)
      | JObj d \<Rightarrow> Inr (length d)
      | _ \<Rightarrow> Inl TypeError)"

definition py_index :: "json \<Rightarrow> nat \<Rightarrow> error + json" where
  "py_index v i =
     (case v of
        JArr xs \<Rightarrow> if i < length xs then Inr (xs ! i) else Inl IndexError
      | JStr s \<Rightarrow> if i < length s then Inr (JStr [s ! i]) else Inl IndexError
      | JObj d \<Rightarrow> Inl KeyError
      | _ \<Rightarrow> Inl TypeError)"

text \<open>\<open>range(n)\<close> and \<open>[x] * n\<close> need an \<open>int\<close>; a negative one gives nothing.\<close>

definition py_count :: "json \<Rightarrow> error + nat" where
  "py_count n = (case as_int n of None \<Rightarrow> Inl TypeError | Some k \<Rightarrow> Inr (nat k))"

text \<open>\<open>i * d\<close> for an \<open>int\<close> \<open>i\<close>, and \<open>a + b\<close>: numbers, strings and lists.\<close>

definition py_mul :: "int \<Rightarrow> json \<Rightarrow> error + json" where
  "py_mul i d =
     (case d of
        JStr s \<Rightarrow> Inr (JStr (concat (replicate (nat i) s)))
      | JArr xs \<Rightarrow> Inr (JArr (concat (replicate (nat i) xs)))
      | _ \<Rightarrow> (case as_int d of None \<Rightarrow> Inl TypeError | Some k \<Rightarrow> Inr (JInt (i * k))))"

definition py_add :: "json \<Rightarrow> json \<Rightarrow> error + json" where
  "py_add a b =
     (case (a, b) of
        (JStr s, JStr t) \<Rightarrow> Inr (JStr (s @ t))
      | (JArr xs, JArr ys) \<Rightarrow> Inr (JArr (xs @ ys))
      | _ \<Rightarrow>
          (case (as_int a, as_int b) of
             (Some x, Some y) \<Rightarrow> Inr (JInt (x + y))
           | _ \<Rightarrow> Inl TypeError))"

text \<open>\<open>[start + i * delta for i in range(count)]\<close>.\<close>

definition delta_run :: "json \<Rightarrow> json \<Rightarrow> json \<Rightarrow> error + json list" where
  "delta_run start delta count =
     (case py_count count of
        Inl e \<Rightarrow> Inl e
      | Inr n \<Rightarrow>
          map_result
            (\<lambda>i. case py_mul (int i) delta of Inl e \<Rightarrow> Inl e | Inr p \<Rightarrow> py_add start p)
            [0..<n])"

text \<open>
  \<open>int(s)\<close> of a \<open>str\<close>: white space around an optional sign and decimal digits,
  which may have single underscores between them.  In an ASCII string the white space
  that is skipped is the space and the characters 9 to 13; the separators 28 to 31,
  which \<open>str.strip\<close> removes, make \<open>int\<close> raise \<open>ValueError\<close>.  A character that is
  not ASCII can be a digit or a space of another script.
\<close>

definition is_digit :: "codepoint \<Rightarrow> bool" where
  "is_digit c = (48 \<le> c \<and> c \<le> 57)"

definition is_space :: "codepoint \<Rightarrow> bool" where
  "is_space c = (c = 32 \<or> (9 \<le> c \<and> c \<le> 13))"

fun parse_digits :: "pystr \<Rightarrow> nat \<Rightarrow> nat option" where
  "parse_digits [] acc = Some acc"
| "parse_digits [c] acc = (if is_digit c then Some (10 * acc + (c - 48)) else None)"
| "parse_digits (c # d # cs) acc =
     (if is_digit c then parse_digits (d # cs) (10 * acc + (c - 48))
      else if c = 95 \<and> is_digit d then parse_digits cs (10 * acc + (d - 48))
      else None)"

definition parse_nat :: "pystr \<Rightarrow> nat option" where
  "parse_nat s = (case s of [] \<Rightarrow> None | c # cs \<Rightarrow> if is_digit c then parse_digits s 0 else None)"

definition py_int :: "pystr \<Rightarrow> error + int" where
  "py_int s =
     (if list_ex (\<lambda>c. 128 \<le> c) s then Inl Unmodelled
      else
        (case rev (dropWhile is_space (rev (dropWhile is_space s))) of
           [] \<Rightarrow> Inl ValueError
         | c # cs \<Rightarrow>
             (if c = 45 then
                (case parse_nat cs of None \<Rightarrow> Inl ValueError | Some n \<Rightarrow> Inr (- int n))
              else if c = 43 then
                (case parse_nat cs of None \<Rightarrow> Inl ValueError | Some n \<Rightarrow> Inr (int n))
              else
                (case parse_nat (c # cs) of None \<Rightarrow> Inl ValueError | Some n \<Rightarrow> Inr (int n)))))"

section \<open>The decoder of \<open>compressed_readable.py\<close>\<close>

text \<open>
  \<open>_unpack_numbers\<close>.  Format \<open>d\<close> gives \<open>float\<close>s, so its result is a list of these
  values only when it is empty.
\<close>

definition unpack_numbers :: "pystr \<Rightarrow> error + int list" where
  "unpack_numbers packed_str =
     (case packed_str of
        [] \<Rightarrow> Inl IndexError
      | type_char # rest \<Rightarrow>
          (case b64decode rest of
             Inl e \<Rightarrow> Inl e
           | Inr packed \<Rightarrow>
               (if type_char = 66 then struct_unpack 1 packed
                else if type_char = 72 then struct_unpack 2 packed
                else if type_char = 73 then struct_unpack 4 packed
                else if length packed mod 8 \<noteq> 0 then Inl StructError
                else if packed = [] then Inr []
                else Inl Unmodelled)))"

text \<open>\<open>packed_str[1:].split(':', 1)\<close>: the text before the first colon, and the rest if there is one.\<close>

definition split_colon :: "pystr \<Rightarrow> pystr \<times> pystr option" where
  "split_colon s =
     (case dropWhile (\<lambda>c. c \<noteq> 58) s of
        [] \<Rightarrow> (s, None)
      | _ # rest \<Rightarrow> (takeWhile (\<lambda>c. c \<noteq> 58) s, Some rest))"

definition unpack_booleans :: "pystr \<Rightarrow> error + bool list" where
  "unpack_booleans packed_str =
     (let (part0, part1) = split_colon (drop 1 packed_str)
      in case b64decode part0 of
           Inl e \<Rightarrow> Inl e
         | Inr byte_data \<Rightarrow>
             (case part1 of
                None \<Rightarrow> Inl IndexError
              | Some p \<Rightarrow>
                  (case py_int p of
                     Inl e \<Rightarrow> Inl e
                   | Inr count \<Rightarrow>
                       map_result
                         (\<lambda>i. if i div 8 < length byte_data
                               then Inr ((byte_data ! (i div 8)) AND (push_bit (i mod 8) 1) \<noteq> 0)
                               else Inl IndexError)
                         [0..<nat count])))"

text \<open>
  The reverse map \<open>{v: k for k, v in key_map.items()}\<close> of \<open>decompress\<close>: its keys are
  the values of \<open>"m"\<close>, which must be hashable; keys that are equal (\<open>True\<close> and \<open>1\<close>)
  are one key.
\<close>

type_synonym rmap = "(json \<times> pystr) list"

fun hashable :: "json \<Rightarrow> bool" where
  "hashable (JArr _) = False"
| "hashable (JObj _) = False"
| "hashable _ = True"

fun rmap_set :: "rmap \<Rightarrow> json \<Rightarrow> pystr \<Rightarrow> rmap" where
  "rmap_set [] v k = [(v, k)]"
| "rmap_set ((v', k') # m) v k =
     (if py_eq v' v then (v', k) # m else (v', k') # rmap_set m v k)"

fun rmap_get :: "rmap \<Rightarrow> json \<Rightarrow> pystr option" where
  "rmap_get [] v = None"
| "rmap_get ((v', k') # m) v = (if py_eq v' v then Some k' else rmap_get m v)"

fun reverse_map_of :: "(pystr \<times> json) list \<Rightarrow> rmap \<Rightarrow> error + rmap" where
  "reverse_map_of [] reverse_map = Inr reverse_map"
| "reverse_map_of ((k, v) # kmap) reverse_map =
     (if hashable v then reverse_map_of kmap (rmap_set reverse_map v k) else Inl TypeError)"

text \<open>\<open>key_map.get(short_key, short_key)\<close>.\<close>

definition original_key_of :: "rmap \<Rightarrow> json \<Rightarrow> error + json" where
  "original_key_of kmap short_key =
     (if hashable short_key then
        (case rmap_get kmap short_key of None \<Rightarrow> Inr short_key | Some k \<Rightarrow> Inr (JStr k))
      else Inl TypeError)"

text \<open>
  \<open>_decompress_value\<close>, \<open>_decompress_array\<close> and \<open>_decompress_object\<close> call each
  other, and the rows of \<open>_decompress_array\<close> pass values through
  \<open>_decompress_value\<close> that an earlier call has returned, so the recursion is not on
  the structure of the input.  Each body is written here over \<open>dec\<close>, the recursive
  call \<open>self._decompress_value(\<cdot>, key_map)\<close>; \<open>decompress_value\<close> ties the knot with
  a bound on the depth of the calls.
\<close>

text \<open>The loop over \<open>columns\<close> in \<open>_decompress_array\<close>: what one column appends.\<close>

definition expand_column :: "(json \<Rightarrow> error + json) \<Rightarrow> json \<Rightarrow> error + json list" where
  "expand_column dec col =
     (case col of
        JObj c \<Rightarrow>
          (if has_key c (lit ''c'') then
             (case getitem c (lit ''c'') of
                Inl e \<Rightarrow> Inl e
              | Inr cv \<Rightarrow>
                  (case dec cv of
                     Inl e \<Rightarrow> Inl e
                   | Inr val \<Rightarrow>
                       (case getitem c (lit ''n'') of
                          Inl e \<Rightarrow> Inl e
                        | Inr n \<Rightarrow>
                            (case py_count n of
                               Inl e \<Rightarrow> Inl e
                             | Inr count \<Rightarrow> Inr [JArr (replicate count val)]))))
           else if has_key c (lit ''s'') then
             (case getitem c (lit ''s'') of
                Inl e \<Rightarrow> Inl e
              | Inr start \<Rightarrow>
             (case getitem c (lit ''d'') of
                Inl e \<Rightarrow> Inl e
              | Inr delta \<Rightarrow>
             (case getitem c (lit ''n'') of
                Inl e \<Rightarrow> Inl e
              | Inr count \<Rightarrow>
                  (case delta_run start delta count of
                     Inl e \<Rightarrow> Inl e
                   | Inr xs \<Rightarrow> Inr [JArr xs]))))
           else Inr [])
      | JStr s \<Rightarrow>
          (case s of
             [] \<Rightarrow> Inl IndexError
           | c0 # _ \<Rightarrow>
               (if c0 = 66 \<or> c0 = 72 \<or> c0 = 73 \<or> c0 = 68 \<or> c0 = 84 then
                  (case dec col of Inl e \<Rightarrow> Inl e | Inr x \<Rightarrow> Inr [x])
                else Inr [col]))
      | _ \<Rightarrow> Inr [col])"

text \<open>The body of \<open>for i in range(num_rows)\<close>: one row, an object.\<close>

definition decompress_row ::
  "(json \<Rightarrow> error + json) \<Rightarrow> rmap \<Rightarrow> json \<Rightarrow> json list \<Rightarrow> nat \<Rightarrow> error + json" where
  "decompress_row dec kmap short_keys expanded_columns i =
     (case py_iter short_keys of
        Inl e \<Rightarrow> Inl e
      | Inr sks \<Rightarrow>
          (case fold_state
                  (\<lambda>(j, short_key) obj.
                     (case original_key_of kmap short_key of
                        Inl e \<Rightarrow> Inl e
                      | Inr original_key \<Rightarrow>
                          (if j < length expanded_columns then
                             (case py_index (expanded_columns ! j) i of
                                Inl e \<Rightarrow> Inl e
                              | Inr x \<Rightarrow>
                                  (case dec x of
                                     Inl e \<Rightarrow> Inl e
                                   | Inr v \<Rightarrow>
                                       (case original_key of
                                          JStr k \<Rightarrow> Inr (dict_set obj k v)
                                        | _ \<Rightarrow> Inl Unmodelled)))
                           else Inl IndexError)))
                  (zip [0..<length sks] sks) [] of
             Inl e \<Rightarrow> Inl e
           | Inr obj \<Rightarrow> Inr (JObj obj)))"

definition decompress_array_body ::
  "(json \<Rightarrow> error + json) \<Rightarrow> (pystr \<times> json) list \<Rightarrow> rmap \<Rightarrow> error + json" where
  "decompress_array_body dec arr_data kmap =
     (case getitem arr_data (lit ''k'') of
        Inl e \<Rightarrow> Inl e
      | Inr short_keys \<Rightarrow>
     (case getitem arr_data (lit ''d'') of
        Inl e \<Rightarrow> Inl e
      | Inr columns \<Rightarrow>
     (case py_iter columns of
        Inl e \<Rightarrow> Inl e
      | Inr cols \<Rightarrow>
     (case map_result (expand_column dec) cols of
        Inl e \<Rightarrow> Inl e
      | Inr appended \<Rightarrow>
          (let expanded_columns = concat appended
           in case (case expanded_columns of [] \<Rightarrow> Inr 0 | c0 # _ \<Rightarrow> py_len c0) of
                Inl e \<Rightarrow> Inl e
              | Inr num_rows \<Rightarrow>
                  (case map_result (decompress_row dec kmap short_keys expanded_columns)
                          [0..<num_rows] of
                     Inl e \<Rightarrow> Inl e
                   | Inr rows \<Rightarrow> Inr (JArr rows)))))))"

fun decompress_object_body ::
  "(json \<Rightarrow> error + json) \<Rightarrow> (pystr \<times> json) list \<Rightarrow> (pystr \<times> json) list \<Rightarrow> rmap \<Rightarrow> error + json"
where
  "decompress_object_body dec [] decompressed kmap = Inr (JObj decompressed)"
| "decompress_object_body dec ((short_key, v) # obj) decompressed kmap =
     (let original_key =
            (case rmap_get kmap (JStr short_key) of None \<Rightarrow> short_key | Some k \<Rightarrow> k)
      in case dec v of
           Inl e \<Rightarrow> Inl e
         | Inr x \<Rightarrow> decompress_object_body dec obj (dict_set decompressed original_key x) kmap)"

definition decompress_value_body ::
  "(json \<Rightarrow> error + json) \<Rightarrow> json \<Rightarrow> rmap \<Rightarrow> error + json" where
  "decompress_value_body dec v kmap =
     (case v of
        JObj d \<Rightarrow>
          (if has_key d (lit ''c'') \<and> has_key d (lit ''n'') then
             (case getitem d (lit ''n'') of
                Inl e \<Rightarrow> Inl e
              | Inr n \<Rightarrow>
                  (case py_count n of
                     Inl e \<Rightarrow> Inl e
                   | Inr count \<Rightarrow>
                       (if count = 0 then Inr (JArr [])
                        else
                          (case getitem d (lit ''c'') of
                             Inl e \<Rightarrow> Inl e
                           | Inr c \<Rightarrow>
                               (case dec c of
                                  Inl e \<Rightarrow> Inl e
                                | Inr x \<Rightarrow> Inr (JArr (replicate count x)))))))
           else if has_key d (lit ''s'') \<and> has_key d (lit ''d'') \<and> has_key d (lit ''n'') then
             (case getitem d (lit ''s'') of
                Inl e \<Rightarrow> Inl e
              | Inr start \<Rightarrow>
             (case getitem d (lit ''d'') of
                Inl e \<Rightarrow> Inl e
              | Inr delta \<Rightarrow>
             (case getitem d (lit ''n'') of
                Inl e \<Rightarrow> Inl e
              | Inr count \<Rightarrow>
                  (case delta_run start delta count of
                     Inl e \<Rightarrow> Inl e
                   | Inr xs \<Rightarrow> Inr (JArr xs)))))
           else if (case map_of d (lit ''a'') of None \<Rightarrow> False | Some a \<Rightarrow> py_eq a (JInt 1)) then
             decompress_array_body dec d kmap
           else decompress_object_body dec d [] kmap)
      | JArr xs \<Rightarrow>
          (case map_result dec xs of Inl e \<Rightarrow> Inl e | Inr ys \<Rightarrow> Inr (JArr ys))
      | JStr s \<Rightarrow>
          (case s of
             [] \<Rightarrow> Inl IndexError
           | c # rest \<Rightarrow>
               (if c = 83 then
                  (case b64decode rest of
                     Inl e \<Rightarrow> Inl e
                   | Inr bs \<Rightarrow>
                       (case utf8_decode bs of Inl e \<Rightarrow> Inl e | Inr t \<Rightarrow> Inr (JStr t)))
                else if c = 84 then
                  (case unpack_booleans s of
                     Inl e \<Rightarrow> Inl e
                   | Inr bools \<Rightarrow> Inr (JArr (map JBool bools)))
                else if c = 66 \<or> c = 72 \<or> c = 73 \<or> c = 68 then
                  (case unpack_numbers s of
                     Inl e \<Rightarrow> Inl e
                   | Inr ns \<Rightarrow> Inr (JArr (map JInt ns)))
                else Inr v))
      | _ \<Rightarrow> Inr v)"

fun decompress_value :: "nat \<Rightarrow> json \<Rightarrow> rmap \<Rightarrow> error + json" where
  "decompress_value 0 v kmap = Inl OutOfFuel"
| "decompress_value (Suc fuel) v kmap =
     decompress_value_body (\<lambda>x. decompress_value fuel x kmap) v kmap"

text \<open>\<open>decompress\<close>: the reverse map is built before \<open>compressed["d"]\<close> is read.\<close>

definition decompress :: "nat \<Rightarrow> (pystr \<times> json) list \<Rightarrow> error + json" where
  "decompress fuel compressed =
     (case (case map_of compressed (lit ''m'') of
              None \<Rightarrow> Inr []
            | Some (JObj key_map_items) \<Rightarrow> reverse_map_of key_map_items []
            | Some _ \<Rightarrow> Inl AttributeError) of
        Inl e \<Rightarrow> Inl e
      | Inr reverse_map \<Rightarrow>
          (case getitem compressed (lit ''d'') of
             Inl e \<Rightarrow> Inl e
           | Inr d \<Rightarrow> decompress_value fuel d reverse_map))"

text \<open>
  \<open>decompress_json\<close>, from \<open>data = json.loads(compressed_str)\<close> on.
\<close>

definition decompress_json :: "nat \<Rightarrow> json \<Rightarrow> error + json" where
  "decompress_json fuel data =
     (case data of
        JObj d \<Rightarrow> if has_key d (lit ''d'') then decompress fuel d else Inr data
      | _ \<Rightarrow> Inr data)"

section \<open>Predicates of the statements\<close>

text \<open>A Unicode scalar value: a code point that is not a surrogate.\<close>

definition unicode_scalar :: "codepoint \<Rightarrow> bool" where
  "unicode_scalar c = (c < 0xD800 \<or> (0xDFFF < c \<and> c < 0x110000))"

text \<open>Every key in the dictionary is longer than \<open>min_key_length\<close>.\<close>

definition long_keys_only :: "compressor \<Rightarrow> bool" where
  "long_keys_only st = list_all (\<lambda>(key, code). min_key_length < length key) (key_map st)"

text \<open>The integer \<open>n\<close> is in the range of a signed integer of \<open>width\<close> bytes.\<close>

definition fits :: "nat \<Rightarrow> int \<Rightarrow> bool" where
  "fits width n = (- (2 ^ (8 * width - 1)) \<le> n \<and> n < 2 ^ (8 * width - 1))"

section \<open>The size fallback of \<open>compress_json\<close>\<close>

lemma sequence_envelope:
  "compress_json (JArr (map JInt [1, 2, 3, 4, 5, 6, 7, 8, 9, 10, 11, 12])) =
     Inr (dumps (JObj [(lit ''d'', JObj [(lit ''s'', JInt 1), (lit ''d'', JInt 1), (lit ''n'', JInt 12)])]))"
  by code_simp

lemma sequence_envelope_lengths:
  "length (dumps (JObj [(lit ''d'', JObj [(lit ''s'', JInt 1), (lit ''d'', JInt 1), (lit ''n'', JInt 12)])])) = 26"
  "length (dumps (JArr (map JInt [1, 2, 3, 4, 5, 6, 7, 8, 9, 10, 11, 12]))) = 28"
  by code_simp+

lemma small_object_fallback:
  "jc_compress_json (JObj [(lit ''a'', JInt 1)]) = Inr (dumps (JObj [(lit ''a'', JInt 1)]))"
  by code_simp

text \<open>
  Claim C2.  Whenever \<open>compress_json\<close> returns a text, the text is no longer than the
  plain compact serialization \<open>dumps data\<close> of the input, and it is the serialization
  of the envelope only when that is strictly shorter: otherwise (ties included) it is
  \<open>dumps data\<close> itself.  This holds for \<open>compress_json\<close> of \<open>compressed_readable.py\<close>
  and of \<open>json_compressor.py\<close>.
\<close>

theorem compress_json_never_longer:
  "(compress_json data = Inr text \<longrightarrow>
      length text \<le> length (dumps data) \<and>
      (\<exists>compressed. compress data = Inr compressed \<and>
         text = (if length (dumps compressed) < length (dumps data)
                 then dumps compressed else dumps data))) \<and>
   (jc_compress_json data = Inr text \<longrightarrow>
      length text \<le> length (dumps data) \<and>
      (\<exists>compressed. jc_compress data = Inr compressed \<and>
         text = (if length (dumps compressed) < length (dumps data)
                 then dumps compressed else dumps data)))"
proof (intro conjI impI)
  assume a: "compress_json data = Inr text"
  then obtain compressed where c: "compress data = Inr compressed"
    by (cases "compress data") (simp_all add: compress_json_def)
  with a have t: "text = (if length (dumps compressed) < length (dumps data)
                 then dumps compressed else dumps data)"
    by (auto simp: compress_json_def Let_def split: if_splits)
  then show "length text \<le> length (dumps data)" by simp
  from c t show "\<exists>compressed. compress data = Inr compressed \<and>
         text = (if length (dumps compressed) < length (dumps data)
                 then dumps compressed else dumps data)" by blast
next
  assume a: "jc_compress_json data = Inr text"
  then obtain compressed where c: "jc_compress data = Inr compressed"
    by (cases "jc_compress data") (simp_all add: jc_compress_json_def)
  with a have t: "text = (if length (dumps compressed) < length (dumps data)
                 then dumps compressed else dumps data)"
    by (auto simp: jc_compress_json_def Let_def split: if_splits)
  then show "length text \<le> length (dumps data)" by simp
  from c t show "\<exists>compressed. jc_compress data = Inr compressed \<and>
         text = (if length (dumps compressed) < length (dumps data)
                 then dumps compressed else dumps data)" by blast
qed

theorem compress_json_never_longer_witness:
  "compress_json (JArr (map JInt [1, 2, 3, 4, 5, 6, 7, 8, 9, 10, 11, 12])) =
     Inr (dumps (JObj [(lit ''d'', JObj [(lit ''s'', JInt 1), (lit ''d'', JInt 1), (lit ''n'', JInt 12)])])) \<and>
   length (dumps (JObj [(lit ''d'', JObj [(lit ''s'', JInt 1), (lit ''d'', JInt 1), (lit ''n'', JInt 12)])]))
     \<le> length (dumps (JArr (map JInt [1, 2, 3, 4, 5, 6, 7, 8, 9, 10, 11, 12]))) \<and>
   jc_compress_json (JObj [(lit ''a'', JInt 1)]) = Inr (dumps (JObj [(lit ''a'', JInt 1)])) \<and>
   length (dumps (JObj [(lit ''a'', JInt 1)])) \<le> length (dumps (JObj [(lit ''a'', JInt 1)]))"
proof -
  have "length (dumps (JObj [(lit ''d'', JObj [(lit ''s'', JInt 1), (lit ''d'', JInt 1), (lit ''n'', JInt 12)])]))
     \<le> length (dumps (JArr (map JInt [1, 2, 3, 4, 5, 6, 7, 8, 9, 10, 11, 12])))"
    using compress_json_never_longer
      [of "JArr (map JInt [1, 2, 3, 4, 5, 6, 7, 8, 9, 10, 11, 12])"
          "dumps (JObj [(lit ''d'', JObj [(lit ''s'', JInt 1), (lit ''d'', JInt 1), (lit ''n'', JInt 12)])])"]
      sequence_envelope
    by blast
  moreover have "length (dumps (JObj [(lit ''a'', JInt 1)])) \<le> length (dumps (JObj [(lit ''a'', JInt 1)]))"
    using compress_json_never_longer
      [of "JObj [(lit ''a'', JInt 1)]" "dumps (JObj [(lit ''a'', JInt 1)])"]
      small_object_fallback
    by blast
  ultimately show ?thesis
    using sequence_envelope small_object_fallback by blast
qed

section \<open>Integers beyond 32 bits\<close>

lemma numeric_array_out_of_range:
  "numeric_array [JInt 1, JInt 2, JInt 5000000000] = Some (Inl StructError)"
  by (simp add: numeric_array_def is_sequential_def is_constant_def pack_numbers_def pack_int_def)

text \<open>
  Claim C3 says that \<open>compress_json\<close> returns a text for every well-formed value, an
  all-integer array beyond the 32-bit range being packed as 64-bit floating point.
  For \<open>[1, 2, 5000000000]\<close> the array is neither a sequence nor constant, so
  \<open>_pack_numbers\<close> is reached; its third test holds for every list of \<open>int\<close>s, and
  \<open>struct.pack\<close> with format \<open>i\<close> raises \<open>struct.error\<close>: \<open>compress_json\<close> returns no
  text.
\<close>

theorem compress_json_raises_beyond_32_bits:
  "compress_json (JArr [JInt 1, JInt 2, JInt 5000000000]) = Inl StructError"
  by (simp add: compress_json_def compress_def compress_array.simps boolean_array_def
      numeric_array_out_of_range)

text \<open>
  Claim C9 says that a numeric array of length at least 3 that is neither constant
  nor an arithmetic progression is packed in the narrowest of 8, 16 and 32 bits, or
  as 64-bit floating point when an element exceeds the 32-bit range.  For
  \<open>[100, 200, 2147483648]\<close>, whose last element is \<open>2 ^ 31\<close>, \<open>_pack_numbers\<close>
  takes the 32-bit branch, and \<open>struct.pack\<close> raises.
\<close>

theorem pack_numbers_32_bit_branch_raises:
  "pack_numbers [100, 200, 2147483648] = Inl StructError \<and>
   compress_array [JInt 100, JInt 200, JInt 2147483648] new_compressor = Inl StructError"
  by (simp add: compress_array.simps boolean_array_def numeric_array_def is_sequential_def
      is_constant_def pack_numbers_def pack_int_def)

section \<open>A top-level object with a field \<open>d\<close>\<close>

lemma fallback_of_d_object:
  "compress_json_data (JObj [(lit ''d'', JInt 1)]) = Inr (JObj [(lit ''d'', JInt 1)])"
  by code_simp

lemma decompress_json_of_d_object:
  "decompress_json (Suc fuel) (JObj [(lit ''d'', JInt 1)]) = Inr (JInt 1)"
  by (simp add: decompress_json_def decompress_def has_key_def getitem_def lit_def
      decompress_value_body_def)

text \<open>
  Claim C1 says that \<open>decompress_json (compress_json v) = v\<close> for every JSON value.
  For \<open>v = {"d": 1}\<close> the envelope is longer than the plain text, so \<open>compress_json\<close>
  returns \<open>{"d":1}\<close>; \<open>decompress_json\<close> parses it to an object with a field \<open>d\<close>,
  takes it for an envelope, and returns \<open>1\<close>.
\<close>

theorem roundtrip_fails_for_d_object:
  "compress_json_data (JObj [(lit ''d'', JInt 1)]) = Inr (JObj [(lit ''d'', JInt 1)]) \<and>
   compress_json (JObj [(lit ''d'', JInt 1)]) = Inr (dumps (JObj [(lit ''d'', JInt 1)])) \<and>
   decompress_json (Suc fuel) (JObj [(lit ''d'', JInt 1)]) = Inr (JInt 1) \<and>
   JInt 1 \<noteq> JObj [(lit ''d'', JInt 1)]"
proof -
  have "compress_json (JObj [(lit ''d'', JInt 1)]) = Inr (dumps (JObj [(lit ''d'', JInt 1)]))"
    by code_simp
  then show ?thesis
    by (simp add: fallback_of_d_object decompress_json_of_d_object)
qed

section \<open>Strings are passed through\<close>

lemma utf8_char_scalar:
  "unicode_scalar c \<Longrightarrow> \<exists>bs. utf8_char c = Inr bs \<and> 1 \<le> length bs"
  by (auto simp: unicode_scalar_def utf8_char_def)

lemma utf8_encode_scalar:
  "list_all unicode_scalar s \<Longrightarrow> \<exists>bs. utf8_encode s = Inr bs \<and> length s \<le> length bs"
proof (induction s)
  case Nil
  then show ?case by simp
next
  case (Cons c s)
  then obtain bs where bs: "utf8_encode s = Inr bs" "length s \<le> length bs"
    by auto
  from Cons.prems obtain cs where cs: "utf8_char c = Inr cs" "1 \<le> length cs"
    using utf8_char_scalar by auto
  from bs cs show ?case by simp
qed

lemma length_b64encode: "length (b64encode bs) = 4 * ((length bs + 2) div 3)"
proof (induction bs rule: b64encode.induct)
  case (4 a b c rest)
  have "(5 + length rest) div 3 = Suc ((Suc (Suc (length rest))) div 3)"
    by arith
  with 4 show ?case by simp
qed simp_all

lemma b64encode_not_shorter: "length bs \<le> length (b64encode bs)"
  unfolding length_b64encode by arith

lemma surrogate_raises:
  "20 \<le> length s \<Longrightarrow> compress_value (JStr (0xD800 # s)) st = Inl UnicodeEncodeError"
  by (simp add: utf8_char_def)

lemma utf8_not_shorter: "utf8_encode s = Inr bs \<Longrightarrow> length s \<le> length bs"
proof (induction s arbitrary: bs)
  case Nil
  then show ?case by simp
next
  case (Cons c s)
  then show ?case
    by (auto simp: utf8_char_def split: sum.splits if_splits)
qed

lemma string_result:
  "compress_value (JStr s) st = Inr (JStr s, st) \<or> (\<exists>e. compress_value (JStr s) st = Inl e)"
proof (cases "utf8_encode s")
  case (Inl e)
  then show ?thesis by simp
next
  case (Inr bs)
  from utf8_not_shorter [OF Inr] b64encode_not_shorter [of bs]
  have "length s \<le> length (b64encode bs)"
    by simp
  with Inr show ?thesis
    by (simp add: Let_def)
qed

text \<open>
  Claim C10 says that \<open>_compress_value\<close> emits every string unchanged.  A \<open>str\<close> can hold
  a surrogate code point (\<open>json.loads\<close> gives one for an escaped \<open>U+D800\<close>); when such a
  string has more than 20 characters, \<open>value.encode('utf-8')\<close> raises
  \<open>UnicodeEncodeError\<close>, out of \<open>_compress_value\<close> and out of \<open>compress_json\<close>, and
  nothing is emitted.
\<close>

theorem surrogate_string_raises_counterexample:
  "20 < length (lit ''a lone surrogate here '' @ [0xD800]) \<and>
   compress_value (JStr (lit ''a lone surrogate here '' @ [0xD800])) new_compressor
     = Inl UnicodeEncodeError \<and>
   compress_json (JStr (lit ''a lone surrogate here '' @ [0xD800])) = Inl UnicodeEncodeError"
  by (simp add: lit_def utf8_char_def compress_json_def compress_json_data_def compress_def
      new_compressor_def Let_def)

text \<open>
  Claim C10, amended.  For every string that has at most 20 characters or consists of
  Unicode scalar values (no surrogate code point), \<open>_compress_value\<close> returns the
  string unchanged and leaves the key dictionary as it was.  For every string at all,
  whenever \<open>_compress_value\<close> returns, it returns the string unchanged: the branch that
  would substitute \<open>"S"\<close> and the base64 text never fires.  The reason is that, whenever
  the string has a UTF-8 encoding, that encoding has at least one byte for each
  character and its base64 text has \<open>4 * ceil(bytes / 3)\<close> characters, which is never
  less than the number of characters of the string, so the test
  \<open>len(encoded) < len(value)\<close> fails.
\<close>

theorem string_value_encoding:
  "(length s \<le> 20 \<or> list_all unicode_scalar s \<longrightarrow>
      compress_value (JStr s) st = Inr (JStr s, st)) \<and>
   (\<forall>r st'. compress_value (JStr s) st = Inr (r, st') \<longrightarrow> r = JStr s \<and> st' = st) \<and>
   (\<forall>bs. utf8_encode s = Inr bs \<longrightarrow>
      length (b64encode bs) = 4 * ((length bs + 2) div 3) \<and>
      \<not> length (b64encode bs) < length s)"
proof (intro conjI allI impI)
  assume d: "length s \<le> 20 \<or> list_all unicode_scalar s"
  show "compress_value (JStr s) st = Inr (JStr s, st)"
  proof (cases "length s \<le> 20")
    case True
    then show ?thesis by simp
  next
    case False
    with d have "list_all unicode_scalar s" by simp
    from utf8_encode_scalar [OF this] obtain bs
      where bs: "utf8_encode s = Inr bs" "length s \<le> length bs" by blast
    have "length bs \<le> length (b64encode bs)"
      by (rule b64encode_not_shorter)
    with bs show ?thesis
      by (simp add: Let_def)
  qed
next
  fix r st'
  assume "compress_value (JStr s) st = Inr (r, st')"
  with string_result [of s st] show "r = JStr s" and "st' = st"
    by auto
next
  fix bs
  assume bs: "utf8_encode s = Inr bs"
  show "length (b64encode bs) = 4 * ((length bs + 2) div 3)"
    by (rule length_b64encode)
  from utf8_not_shorter [OF bs] b64encode_not_shorter [of bs]
  show "\<not> length (b64encode bs) < length s"
    by simp
qed

lemma long_text_scalar:
  "list_all unicode_scalar (lit ''Lorem ipsum dolor sit amet, consectetur'' @ [233, 8364, 128512])"
  by (simp add: unicode_scalar_def lit_def)

lemma long_text_utf8:
  "utf8_encode (lit ''Lorem ipsum dolor sit amet, consectetur'' @ [233, 8364, 128512])
     = Inr (lit ''Lorem ipsum dolor sit amet, consectetur'' @ [195, 169, 226, 130, 172, 240, 159, 152, 128])"
  by (simp add: lit_def utf8_char_def)

theorem string_value_encoding_witness:
  "list_all unicode_scalar (lit ''Lorem ipsum dolor sit amet, consectetur'' @ [233, 8364, 128512]) \<and>
   20 < length (lit ''Lorem ipsum dolor sit amet, consectetur'' @ [233, 8364, 128512]) \<and>
   compress_value (JStr (lit ''Lorem ipsum dolor sit amet, consectetur'' @ [233, 8364, 128512])) new_compressor
     = Inr (JStr (lit ''Lorem ipsum dolor sit amet, consectetur'' @ [233, 8364, 128512]), new_compressor) \<and>
   utf8_encode (lit ''Lorem ipsum dolor sit amet, consectetur'' @ [233, 8364, 128512])
     = Inr (lit ''Lorem ipsum dolor sit amet, consectetur'' @ [195, 169, 226, 130, 172, 240, 159, 152, 128]) \<and>
   \<not> length (b64encode (lit ''Lorem ipsum dolor sit amet, consectetur'' @ [195, 169, 226, 130, 172, 240, 159, 152, 128]))
       < length (lit ''Lorem ipsum dolor sit amet, consectetur'' @ [233, 8364, 128512])"
proof -
  have "20 < length (lit ''Lorem ipsum dolor sit amet, consectetur'' @ [233, 8364, 128512])"
    by (simp add: lit_def)
  then show ?thesis
    using string_value_encoding [of "lit ''Lorem ipsum dolor sit amet, consectetur'' @ [233, 8364, 128512]" new_compressor]
      long_text_scalar long_text_utf8
    by blast
qed

section \<open>Which keys enter the key dictionary\<close>

lemma map_state_invariant:
  assumes "map_state f xs st = Inr (ys, st')" and "I st"
    and "\<And>x s y s'. x \<in> set xs \<Longrightarrow> I s \<Longrightarrow> f x s = Inr (y, s') \<Longrightarrow> I s'"
  shows "I st'"
  using assms
proof (induction xs arbitrary: st ys)
  case Nil
  then show ?case by simp
next
  case (Cons x xs)
  from Cons.prems(1) obtain y s1 ys' where fx: "f x st = Inr (y, s1)"
    and rest: "map_state f xs s1 = Inr (ys', st')"
    by (auto split: sum.splits)
  have s1: "I s1"
    using Cons.prems(3) [OF _ Cons.prems(2) fx] by simp
  show ?case
  proof (rule Cons.IH [OF rest s1])
    fix x' s y' s'
    assume "x' \<in> set xs" "I s" "f x' s = Inr (y', s')"
    then show "I s'"
      using Cons.prems(3) [of x' s y' s'] by simp
  qed
qed

lemma fold_state_invariant:
  assumes "fold_state f xs st = Inr st'" and "I st"
    and "\<And>x s s'. x \<in> set xs \<Longrightarrow> I s \<Longrightarrow> f x s = Inr s' \<Longrightarrow> I s'"
  shows "I st'"
  using assms
proof (induction xs arbitrary: st)
  case Nil
  then show ?case by simp
next
  case (Cons x xs)
  from Cons.prems(1) obtain s1 where fx: "f x st = Inr s1"
    and rest: "fold_state f xs s1 = Inr st'"
    by (auto split: sum.splits)
  have s1: "I s1"
    using Cons.prems(3) [OF _ Cons.prems(2) fx] by simp
  show ?case
  proof (rule Cons.IH [OF rest s1])
    fix x' s s'
    assume "x' \<in> set xs" "I s" "f x' s = Inr s'"
    then show "I s'"
      using Cons.prems(3) [of x' s s'] by simp
  qed
qed

lemma jc_short_keys_of_invariant:
  assumes "\<And>k s. I s \<Longrightarrow> I (snd (jc_get_short_key k s))"
  shows "I st \<Longrightarrow> I (snd (jc_short_keys_of keys st))"
proof (induction keys arbitrary: st)
  case Nil
  then show ?case by simp
next
  case (Cons k keys)
  have "I (snd (jc_get_short_key k st))"
    using assms Cons.prems by simp
  from Cons.IH [OF this] show ?case
    by (simp add: case_prod_unfold Let_def)
qed

lemma jc_invariant:
  fixes I :: "compressor \<Rightarrow> bool"
  assumes step: "\<And>k s. I s \<Longrightarrow> I (snd (jc_get_short_key k s))"
  shows "I st \<Longrightarrow> jc_compress_value v st = Inr (r, st') \<Longrightarrow> I st'"
    and "I st \<Longrightarrow> jc_compress_array arr st = Inr (r, st') \<Longrightarrow> I st'"
    and "I st \<Longrightarrow> jc_compress_object obj acc st = Inr (r, st') \<Longrightarrow> I st'"
proof (induction v st and arr st and obj acc st arbitrary: r st' and r st' and r st'
    rule: jc_compress_value_jc_compress_array_jc_compress_object.induct)
  case (7 arr st)
  show ?case
  proof (cases "arr = []")
    case True
    with "7.prems" show ?thesis
      by (simp add: jc_compress_array.simps)
  next
    case ne: False
    show ?thesis
    proof (cases "case homogeneous_objects arr of None \<Rightarrow> None
               | Some (first, dicts) \<Rightarrow> if 3 \<le> length arr then Some (first, dicts) else None")
      case None
      with ne "7.prems"(2) obtain vs where "map_state jc_compress_value arr st = Inr (vs, st')"
        by (auto simp: jc_compress_array.simps split: sum.splits)
      from map_state_invariant [where I = I, OF this "7.prems"(1)] "7.IH"(1) [OF ne None]
      show ?thesis by blast
    next
      case (Some p)
      obtain first dicts where p: "p = (first, dicts)"
        by (cases p)
      obtain short_keys st1 where sk: "jc_short_keys_of (map fst first) st = (short_keys, st1)"
        by (cases "jc_short_keys_of (map fst first) st")
      have I1: "I st1"
        using jc_short_keys_of_invariant [of I st "map fst first", OF step "7.prems"(1)] sk
        by simp
      let ?body = "\<lambda>item.
                      fold_state
                        (\<lambda>(orig_key, short_key) (columns, st).
                           (case getitem item orig_key of
                              Inl e \<Rightarrow> Inl e
                            | Inr v \<Rightarrow>
                                (case jc_compress_value v st of
                                   Inl e \<Rightarrow> Inl e
                                 | Inr (c, st') \<Rightarrow> Inr (append_to columns short_key c, st'))))
                        (zip (map fst first) short_keys)"
      from ne Some p sk "7.prems"(2) obtain columns where
        fs: "fold_state ?body dicts
               (fold (\<lambda>sk columns. dict_set columns sk []) short_keys [], st1) = Inr (columns, st')"
        by (auto simp: jc_compress_array.simps Let_def split: sum.splits)
      have inner: "I (snd s')"
        if "item \<in> set dicts" and "I (snd s)" and "?body item s = Inr s'" for item s s'
      proof (rule fold_state_invariant [where I = "\<lambda>p. I (snd p)", OF that(3) that(2)])
        fix x s2 s3
        assume x: "x \<in> set (zip (map fst first) short_keys)" and i2: "I (snd s2)"
          and f: "(case x of (orig_key, short_key) \<Rightarrow> \<lambda>(columns, st).
                     (case getitem item orig_key of
                        Inl e \<Rightarrow> Inl e
                      | Inr v \<Rightarrow>
                          (case jc_compress_value v st of
                             Inl e \<Rightarrow> Inl e
                           | Inr (c, st') \<Rightarrow> Inr (append_to columns short_key c, st')))) s2 = Inr s3"
        obtain k sk' where xk: "x = (k, sk')" by (cases x)
        obtain cols2 st2 where s2: "s2 = (cols2, st2)" by (cases s2)
        from f xk s2 obtain v c where g: "getitem item k = Inr v"
          and cv: "jc_compress_value v st2 = Inr (c, snd s3)"
          by (auto split: sum.splits)
        from "7.IH"(2) [OF ne Some p [symmetric] refl refl sk [symmetric] refl that(1) x xk [symmetric] g _ cv]
          i2 s2
        show "I (snd s3)" by simp
      qed
      have "I (snd (columns, st'))"
        by (rule fold_state_invariant [where I = "\<lambda>p. I (snd p)", OF fs]) (simp_all add: I1 inner)
      then show ?thesis by simp
    qed
  qed
next
  case (9 key v obj compressed st)
  obtain short_key st1 where g: "jc_get_short_key key st = (short_key, st1)"
    by (cases "jc_get_short_key key st")
  have I1: "I st1"
    using step [OF "9.prems"(1), of key] g by simp
  from "9.prems"(2) g obtain c st2 where cv: "jc_compress_value v st1 = Inr (c, st2)"
    and rest: "jc_compress_object obj (dict_set compressed short_key c) st2 = Inr (r, st')"
    by (auto split: sum.splits)
  have "I st2"
    using "9.IH"(1) [OF g [symmetric] refl I1 cv] .
  from "9.IH"(2) [OF g [symmetric] refl cv refl this rest] show ?case .
qed auto

lemma jc_get_short_key_long:
  "long_keys_only st \<Longrightarrow> long_keys_only (snd (jc_get_short_key k st))"
  by (auto simp: long_keys_only_def jc_get_short_key_def get_short_key_def Let_def
      split: option.splits)

lemma jc_compress_value_long:
  "jc_compress_value data new_compressor = Inr (r, st) \<Longrightarrow> long_keys_only st"
proof -
  assume a: "jc_compress_value data new_compressor = Inr (r, st)"
  have "long_keys_only new_compressor"
    by (simp add: long_keys_only_def new_compressor_def)
  from jc_invariant(1) [of long_keys_only, OF jc_get_short_key_long this a]
  show ?thesis .
qed

lemma get_short_key_records:
  "map_of (key_map (snd (get_short_key k st))) k = Some (fst (get_short_key k st))"
  by (cases "map_of (key_map st) k") (simp_all add: get_short_key_def Let_def map_add_def)

lemma readable_codes_every_key:
  "get_short_key (lit ''a'') new_compressor =
     (lit ''0'', \<lparr>key_map = [(lit ''a'', lit ''0'')], key_counter = 1\<rparr>)"
  by (simp add: get_short_key_def new_compressor_def encode_base62_def chars62_def lit_def Let_def)

lemma readable_envelope_of_short_key:
  "compress (JObj [(lit ''a'', JInt 1)]) =
     Inr (JObj [(lit ''d'', JObj [(lit ''0'', JInt 1)]),
                (lit ''m'', JObj [(lit ''a'', JStr (lit ''0''))])])"
  by (simp add: compress_def envelope_def readable_codes_every_key)

text \<open>
  Claim C7 says that no key at or below the minimum-length threshold is assigned a
  short code or appears in the emitted \<open>"m"\<close> mapping.  \<open>compressed_readable.py\<close>
  has no threshold: \<open>_get_short_key\<close> gives the one-character key \<open>a\<close> the code
  \<open>0\<close>, and \<open>compress\<close> of \<open>{"a": 1}\<close> emits \<open>"m": {"a": "0"}\<close>.
\<close>

theorem short_key_is_coded_counterexample:
  "length (lit ''a'') \<le> 4 \<and>
   fst (get_short_key (lit ''a'') new_compressor) = lit ''0'' \<and>
   lit ''0'' \<noteq> lit ''a'' \<and>
   compress (JObj [(lit ''a'', JInt 1)]) =
     Inr (JObj [(lit ''d'', JObj [(lit ''0'', JInt 1)]),
                (lit ''m'', JObj [(lit ''a'', JStr (lit ''0''))])])"
  by (simp add: readable_envelope_of_short_key readable_codes_every_key) (simp add: lit_def)

text \<open>
  Claim C7, amended.  In \<open>json_compressor.py\<close> (\<open>min_key_length = 6\<close>) a key of at most
  6 characters is returned unchanged by \<open>_get_short_key\<close>, which leaves the dictionary as
  it was, and every key of the \<open>"m"\<close> mapping that \<open>compress\<close> emits is longer than 6
  characters.  In \<open>compressed_readable.py\<close> there is no threshold: \<open>_get_short_key\<close>
  records a code for every key it is called with, whatever its length.
\<close>

theorem key_threshold_by_encoder:
  "(length k \<le> min_key_length \<longrightarrow> jc_get_short_key k st = (k, st)) \<and>
   (jc_compress data = Inr (JObj env) \<longrightarrow>
      (case map_of env (lit ''m'') of
         Some (JObj m) \<Rightarrow> list_all (\<lambda>(key, code). min_key_length < length key) m
       | _ \<Rightarrow> True)) \<and>
   map_of (key_map (snd (get_short_key k st))) k = Some (fst (get_short_key k st))"
proof (intro conjI impI)
  assume "length k \<le> min_key_length"
  then show "jc_get_short_key k st = (k, st)"
    by (simp add: jc_get_short_key_def)
next
  assume a: "jc_compress data = Inr (JObj env)"
  then obtain d st' where cv: "jc_compress_value data new_compressor = Inr (d, st')"
    and env: "JObj env = envelope d st'"
    by (auto simp: jc_compress_def split: sum.splits)
  have long: "list_all (\<lambda>(key, code). min_key_length < length key) (key_map st')"
    using jc_compress_value_long [OF cv] by (simp add: long_keys_only_def)
  have dm: "lit ''d'' \<noteq> lit ''m''"
    by (simp add: lit_def)
  show "case map_of env (lit ''m'') of
         Some (JObj m) \<Rightarrow> list_all (\<lambda>(key, code). min_key_length < length key) m
       | _ \<Rightarrow> True"
  proof (cases "key_map st' = []")
    case True
    with env dm show ?thesis
      by (simp add: envelope_def)
  next
    case False
    with env dm have "map_of env (lit ''m'') = Some (JObj (map (\<lambda>(k, c). (k, JStr c)) (key_map st')))"
      by (simp add: envelope_def)
    moreover have "list_all (\<lambda>(key, code). min_key_length < length key)
                     (map (\<lambda>(k, c). (k, JStr c)) (key_map st'))"
      using long by (induction "key_map st'") (auto simp: list_all_iff)
    ultimately show ?thesis by simp
  qed
next
  show "map_of (key_map (snd (get_short_key k st))) k = Some (fst (get_short_key k st))"
    by (rule get_short_key_records)
qed

lemma jc_envelope_example:
  "jc_compress (JObj [(lit ''id'', JInt 1), (lit ''description'', JInt 2)]) =
     Inr (JObj [(lit ''d'', JObj [(lit ''id'', JInt 1), (lit ''0'', JInt 2)]),
                (lit ''m'', JObj [(lit ''description'', JStr (lit ''0''))])])"
  by code_simp

theorem key_threshold_by_encoder_witness:
  "length (lit ''id'') \<le> min_key_length \<and>
   jc_get_short_key (lit ''id'') new_compressor = (lit ''id'', new_compressor) \<and>
   jc_compress (JObj [(lit ''id'', JInt 1), (lit ''description'', JInt 2)]) =
     Inr (JObj [(lit ''d'', JObj [(lit ''id'', JInt 1), (lit ''0'', JInt 2)]),
                (lit ''m'', JObj [(lit ''description'', JStr (lit ''0''))])]) \<and>
   list_all (\<lambda>(key, code). min_key_length < length key) [(lit ''description'', JStr (lit ''0''))]"
proof -
  have l: "length (lit ''id'') \<le> min_key_length"
    by (simp add: lit_def min_key_length_def)
  have m: "map_of [(lit ''d'', JObj [(lit ''id'', JInt 1), (lit ''0'', JInt 2)]),
                (lit ''m'', JObj [(lit ''description'', JStr (lit ''0''))])] (lit ''m'')
           = Some (JObj [(lit ''description'', JStr (lit ''0''))])"
    by (simp add: lit_def)
  from key_threshold_by_encoder
    [of "lit ''id''" new_compressor
        "JObj [(lit ''id'', JInt 1), (lit ''description'', JInt 2)]"
        "[(lit ''d'', JObj [(lit ''id'', JInt 1), (lit ''0'', JInt 2)]),
          (lit ''m'', JObj [(lit ''description'', JStr (lit ''0''))])]"]
    l jc_envelope_example
  have "jc_get_short_key (lit ''id'') new_compressor = (lit ''id'', new_compressor)"
    and "case map_of [(lit ''d'', JObj [(lit ''id'', JInt 1), (lit ''0'', JInt 2)]),
                (lit ''m'', JObj [(lit ''description'', JStr (lit ''0''))])] (lit ''m'') of
         Some (JObj m) \<Rightarrow> list_all (\<lambda>(key, code). min_key_length < length key) m
       | _ \<Rightarrow> True"
    by blast+
  with l jc_envelope_example m show ?thesis
    by (simp only: option.case json.case)
qed

section \<open>The columnar form of an array of objects\<close>

lemma all_of_as_dict_map: "all_of as_dict (map JObj dicts) = Some dicts"
  by (induction dicts) simp_all

lemma homogeneous_objects_iff:
  "list_all (\<lambda>item. set (map fst item) = set (map fst first)) (first # others) \<Longrightarrow>
     homogeneous_objects (map JObj (first # others)) = Some (first, first # others)"
  unfolding homogeneous_objects_def all_of_as_dict_map by simp

lemma homogeneous_objects_keys:
  assumes "homogeneous_objects arr = Some (first, dicts)" and "item \<in> set dicts"
  shows "set (map fst item) = set (map fst first)"
proof -
  from assms(1) obtain others where d: "dicts = first # others"
    and a: "list_all (\<lambda>item. set (map fst item) = set (map fst first)) (first # others)"
    by (auto simp: homogeneous_objects_def split: option.splits list.splits if_splits)
  from a d assms(2) show ?thesis
    unfolding list_all_iff by blast
qed

lemma map_state_total:
  assumes "\<And>x s. x \<in> set xs \<Longrightarrow> \<exists>y s'. f x s = Inr (y, s')"
  shows "\<exists>ys st'. map_state f xs st = Inr (ys, st') \<and> length ys = length xs"
  using assms
proof (induction xs arbitrary: st)
  case Nil
  then show ?case by simp
next
  case (Cons x xs)
  from Cons.prems [of x st] obtain y s1 where fx: "f x st = Inr (y, s1)"
    by auto
  from Cons.IH [of s1] Cons.prems obtain ys st' where
    "map_state f xs s1 = Inr (ys, st')" "length ys = length xs"
    by auto
  with fx show ?case by simp
qed

lemma fold_state_total:
  assumes "\<And>x s. x \<in> set xs \<Longrightarrow> \<exists>s'. f x s = Inr s'"
  shows "\<exists>st'. fold_state f xs st = Inr st'"
  using assms
proof (induction xs arbitrary: st)
  case Nil
  then show ?case by simp
next
  case (Cons x xs)
  from Cons.prems [of x st] obtain s1 where fx: "f x st = Inr s1"
    by auto
  from Cons.IH [of s1] Cons.prems obtain st' where "fold_state f xs s1 = Inr st'"
    by auto
  with fx show ?case by simp
qed

lemma append_to_keys: "map fst (append_to columns sk v) = map fst columns"
  by (induction columns) (auto simp: append_to_def)

lemma dict_set_map_fst:
  "map fst (dict_set d k v) = (if k \<in> set (map fst d) then map fst d else map fst d @ [k])"
  by (induction d) force+

lemma dict_set_keys: "fst ` set (dict_set d k v) = insert k (fst ` set d)"
proof -
  have "set (map fst (dict_set d k v)) = insert k (set (map fst d))"
    unfolding dict_set_map_fst by auto
  then show ?thesis by simp
qed

lemma initial_columns_keys:
  "fst ` set (fold (\<lambda>sk columns. dict_set columns sk []) short_keys acc)
     = set short_keys \<union> fst ` set acc"
  by (induction short_keys arbitrary: acc) (auto simp: dict_set_keys)

lemma columns_of_total:
  "set short_keys \<subseteq> fst ` set columns \<Longrightarrow> \<exists>d. columns_of columns short_keys = Inr d"
proof (induction short_keys)
  case Nil
  then show ?case by simp
next
  case (Cons sk short_keys)
  then obtain d where d: "columns_of columns short_keys = Inr d"
    by auto
  from Cons.prems have "sk \<in> fst ` set columns"
    by simp
  then obtain vs where "map_of columns sk = Some vs"
    by (metis domD dom_map_of_conv_image_fst)
  with d show ?case by simp
qed

lemma getitem_present: "k \<in> set (map fst item) \<Longrightarrow> \<exists>v. getitem item k = Inr v"
proof -
  assume "k \<in> set (map fst item)"
  then have "k \<in> dom (map_of item)"
    by (simp add: dom_map_of_conv_image_fst)
  then show ?thesis
    by (auto simp: getitem_def)
qed

text \<open>The encoder of \<open>json_compressor.py\<close> returns for every value.\<close>

lemma jc_total:
  shows "\<exists>r st'. jc_compress_value v st = Inr (r, st')"
    and "\<exists>r st'. jc_compress_array arr st = Inr (r, st') \<and>
           (if (case homogeneous_objects arr of None \<Rightarrow> False | Some p \<Rightarrow> 3 \<le> length arr)
            then \<exists>short_keys d. r = JObj [(lit ''t'', JStr (lit ''a'')),
                                          (lit ''k'', JArr (map JStr short_keys)),
                                          (lit ''d'', JArr d)]
            else \<exists>vs. r = JArr vs \<and> length vs = length arr)"
    and "\<exists>r st'. jc_compress_object obj acc st = Inr (r, st')"
proof (induction v st and arr st and obj acc st
    rule: jc_compress_value_jc_compress_array_jc_compress_object.induct)
  case (7 arr st)
  show ?case
  proof (cases "arr = []")
    case True
    then show ?thesis
      by (simp add: jc_compress_array.simps homogeneous_objects_def)
  next
    case ne: False
    show ?thesis
    proof (cases "case homogeneous_objects arr of None \<Rightarrow> None
               | Some (first, dicts) \<Rightarrow> if 3 \<le> length arr then Some (first, dicts) else None")
      case None
      then have no: "\<not> (case homogeneous_objects arr of None \<Rightarrow> False | Some p \<Rightarrow> 3 \<le> length arr)"
        by (auto split: option.splits if_splits)
      from map_state_total [of arr jc_compress_value st] "7.IH"(1) [OF ne None]
      obtain vs st' where "map_state jc_compress_value arr st = Inr (vs, st')"
        "length vs = length arr"
        by blast
      with ne None no show ?thesis
        by (simp add: jc_compress_array.simps)
    next
      case (Some p)
      obtain first dicts where p: "p = (first, dicts)"
        by (cases p)
      from Some p have hom: "homogeneous_objects arr = Some (first, dicts)" and len: "3 \<le> length arr"
        by (auto split: option.splits if_splits)
      obtain short_keys st1 where sk: "jc_short_keys_of (map fst first) st = (short_keys, st1)"
        by (cases "jc_short_keys_of (map fst first) st")
      let ?inner = "\<lambda>item. (\<lambda>(orig_key, short_key) (columns, st).
                           (case getitem item orig_key of
                              Inl e \<Rightarrow> Inl e
                            | Inr v \<Rightarrow>
                                (case jc_compress_value v st of
                                   Inl e \<Rightarrow> Inl e
                                 | Inr (c, st') \<Rightarrow> Inr (append_to columns short_key c, st'))))"
      let ?body = "\<lambda>item. fold_state (?inner item) (zip (map fst first) short_keys)"
      let ?columns0 = "fold (\<lambda>sk columns. dict_set columns sk []) short_keys []"
      have inner_total: "\<exists>s'. ?inner item x s = Inr s'"
        if "item \<in> set dicts" and "x \<in> set (zip (map fst first) short_keys)" for item x s
      proof -
        obtain k sk' where xk: "x = (k, sk')" by (cases x)
        obtain cols2 st2 where s: "s = (cols2, st2)" by (cases s)
        from that(2) xk have "k \<in> set (map fst first)"
          by (auto dest: set_zip_leftD)
        then have "k \<in> set (map fst item)"
          using homogeneous_objects_keys [OF hom that(1)] by simp
        then obtain v where g: "getitem item k = Inr v"
          using getitem_present by blast
        from "7.IH"(2) [OF ne Some p [symmetric] refl refl sk [symmetric] refl that(1) that(2) xk [symmetric] g]
        obtain c st3 where "jc_compress_value v st2 = Inr (c, st3)"
          by blast
        with xk s g show ?thesis by simp
      qed
      have "\<exists>s'. ?body item s = Inr s'" if "item \<in> set dicts" for item s
        by (rule fold_state_total) (use inner_total [OF that] in blast)
      from fold_state_total [of dicts ?body "(?columns0, st1)", OF this]
      obtain columns st2 where fs: "fold_state ?body dicts (?columns0, st1) = Inr (columns, st2)"
        by force
      have inner_keys: "fst ` set (fst s') = set short_keys"
        if "fst ` set (fst s) = set short_keys" and "?inner item x s = Inr s'" for item x s s'
      proof -
        obtain k sk' where xk: "x = (k, sk')" by (cases x)
        obtain cols2 st2 where s: "s = (cols2, st2)" by (cases s)
        from that(2) xk s obtain c where "fst s' = append_to cols2 sk' c"
          by (auto split: sum.splits)
        then have "map fst (fst s') = map fst cols2"
          by (simp add: append_to_keys)
        then have "fst ` set (fst s') = fst ` set cols2"
          by (metis set_map)
        with that(1) s show ?thesis by simp
      qed
      have body_keys: "fst ` set (fst s') = set short_keys"
        if "fst ` set (fst s) = set short_keys" and "?body item s = Inr s'" for item s s'
        by (rule fold_state_invariant [where I = "\<lambda>p. fst ` set (fst p) = set short_keys", OF that(2) that(1)])
          (rule inner_keys)
      have "fst ` set (fst (columns, st2)) = set short_keys"
        by (rule fold_state_invariant [where I = "\<lambda>p. fst ` set (fst p) = set short_keys", OF fs])
          (simp_all add: initial_columns_keys body_keys)
      then obtain d where d: "columns_of columns short_keys = Inr d"
        using columns_of_total [of short_keys columns] by auto
      from ne Some p sk fs d hom len show ?thesis
        by (auto simp: jc_compress_array.simps Let_def)
    qed
  qed
next
  case (9 key v obj compressed st)
  obtain short_key st1 where g: "jc_get_short_key key st = (short_key, st1)"
    by (cases "jc_get_short_key key st")
  from "9.IH"(1) [OF g [symmetric] refl] obtain c st2 where
    cv: "jc_compress_value v st1 = Inr (c, st2)"
    by blast
  from "9.IH"(2) [OF g [symmetric] refl cv refl] g cv show ?case
    by simp
qed auto

lemma no_boolean_array_of_objects: "boolean_array (JObj d # arr) = None"
  by (simp add: boolean_array_def)

lemma no_numeric_array_of_objects: "numeric_array (JObj d # arr) = None"
  by (simp add: numeric_array_def)

lemma readable_columnar:
  assumes "list_all (\<lambda>item. set (map fst item) = set (map fst first)) (first # others)"
    and "compress_array (map JObj (first # others)) st = Inr (node, st')"
  shows "\<exists>short_keys columns.
           node = JObj [(lit ''a'', JInt 1), (lit ''k'', JArr (map JStr short_keys)),
                        (lit ''d'', JArr columns)]"
  using assms(2) homogeneous_objects_iff [OF assms(1)]
  by (auto simp: compress_array.simps no_boolean_array_of_objects no_numeric_array_of_objects
      Let_def split: sum.splits prod.splits)

text \<open>
  Claim C6 says that an array of exactly 2 objects with an identical key set is not
  encoded as a columnar node.  In \<open>compressed_readable.py\<close> the third block of
  \<open>_compress_array\<close> has no test of the length: \<open>[{"x": 1}, {"x": 2}]\<close> becomes
  \<open>{"a": 1, "k": ["0"], "d": [[1, 2]]}\<close>.
\<close>

theorem two_objects_columnar_counterexample:
  "compress_array [JObj [(lit ''x'', JInt 1)], JObj [(lit ''x'', JInt 2)]] new_compressor =
     Inr (JObj [(lit ''a'', JInt 1), (lit ''k'', JArr [JStr (lit ''0'')]),
                (lit ''d'', JArr [JArr [JInt 1, JInt 2]])],
          \<lparr>key_map = [(lit ''x'', lit ''0'')], key_counter = 1\<rparr>)"
  by code_simp

text \<open>
  Claim C6, amended.  For an array of objects that all have the key set of the first:
  \<open>json_compressor.py\<close> encodes it, when it has at least 3 elements, as a node with the
  columnar marker \<open>"t": "a"\<close>, and when it has exactly 2, element by element as an
  array; \<open>compressed_readable.py\<close> encodes it, whatever its length, as a node with the
  columnar marker \<open>"a": 1\<close> whenever \<open>_compress_array\<close> returns.
\<close>

theorem columnar_trigger:
  assumes "list_all (\<lambda>item. set (map fst item) = set (map fst first)) (first # others)"
  shows "(3 \<le> length (first # others) \<longrightarrow>
            (\<exists>short_keys d st'.
               jc_compress_array (map JObj (first # others)) st =
                 Inr (JObj [(lit ''t'', JStr (lit ''a'')), (lit ''k'', JArr (map JStr short_keys)),
                            (lit ''d'', JArr d)], st'))) \<and>
         (length (first # others) = 2 \<longrightarrow>
            (\<exists>vs st'. jc_compress_array (map JObj (first # others)) st = Inr (JArr vs, st') \<and>
               length vs = 2)) \<and>
         (\<forall>node st'. compress_array (map JObj (first # others)) st = Inr (node, st') \<longrightarrow>
            (\<exists>short_keys columns.
               node = JObj [(lit ''a'', JInt 1), (lit ''k'', JArr (map JStr short_keys)),
                            (lit ''d'', JArr columns)]))"
proof (intro conjI impI allI)
  assume len: "3 \<le> length (first # others)"
  from jc_total(2) [of "map JObj (first # others)" st] homogeneous_objects_iff [OF assms] len
  show "\<exists>short_keys d st'.
          jc_compress_array (map JObj (first # others)) st =
            Inr (JObj [(lit ''t'', JStr (lit ''a'')), (lit ''k'', JArr (map JStr short_keys)),
                       (lit ''d'', JArr d)], st')"
    by auto
next
  assume len: "length (first # others) = 2"
  from jc_total(2) [of "map JObj (first # others)" st] homogeneous_objects_iff [OF assms] len
  show "\<exists>vs st'. jc_compress_array (map JObj (first # others)) st = Inr (JArr vs, st') \<and>
          length vs = 2"
    by auto
next
  fix node st'
  assume "compress_array (map JObj (first # others)) st = Inr (node, st')"
  from readable_columnar [OF assms this]
  show "\<exists>short_keys columns.
          node = JObj [(lit ''a'', JInt 1), (lit ''k'', JArr (map JStr short_keys)),
                       (lit ''d'', JArr columns)]" .
qed

lemma three_objects_jc:
  "jc_compress_array
     (map JObj [[(lit ''x'', JInt 1)], [(lit ''x'', JInt 5)], [(lit ''x'', JInt 2)]]) new_compressor =
   Inr (JObj [(lit ''t'', JStr (lit ''a'')), (lit ''k'', JArr [JStr (lit ''x'')]),
              (lit ''d'', JArr [JArr [JInt 1, JInt 5, JInt 2]])], new_compressor)"
  by code_simp

lemma three_objects_readable:
  "compress_array
     (map JObj [[(lit ''x'', JInt 1)], [(lit ''x'', JInt 5)], [(lit ''x'', JInt 2)]]) new_compressor =
   Inr (JObj [(lit ''a'', JInt 1), (lit ''k'', JArr [JStr (lit ''0'')]),
              (lit ''d'', JArr [JStr (lit ''BAQUC'')])],
        \<lparr>key_map = [(lit ''x'', lit ''0'')], key_counter = 1\<rparr>)"
  by code_simp

theorem columnar_trigger_witness:
  "list_all (\<lambda>item. set (map fst item) = set (map fst [(lit ''x'', JInt 1)]))
     [[(lit ''x'', JInt 1)], [(lit ''x'', JInt 5)], [(lit ''x'', JInt 2)]] \<and>
   3 \<le> length [[(lit ''x'', JInt 1)], [(lit ''x'', JInt 5)], [(lit ''x'', JInt 2)]] \<and>
   (\<exists>short_keys d st'.
      jc_compress_array
        (map JObj [[(lit ''x'', JInt 1)], [(lit ''x'', JInt 5)], [(lit ''x'', JInt 2)]]) new_compressor =
      Inr (JObj [(lit ''t'', JStr (lit ''a'')), (lit ''k'', JArr (map JStr short_keys)),
                 (lit ''d'', JArr d)], st')) \<and>
   (\<exists>short_keys columns.
      JObj [(lit ''a'', JInt 1), (lit ''k'', JArr [JStr (lit ''0'')]),
            (lit ''d'', JArr [JStr (lit ''BAQUC'')])] =
      JObj [(lit ''a'', JInt 1), (lit ''k'', JArr (map JStr short_keys)), (lit ''d'', JArr columns)])"
proof -
  have h: "list_all (\<lambda>item. set (map fst item) = set (map fst [(lit ''x'', JInt 1)]))
     [[(lit ''x'', JInt 1)], [(lit ''x'', JInt 5)], [(lit ''x'', JInt 2)]]"
    by simp
  have l: "3 \<le> length [[(lit ''x'', JInt 1)], [(lit ''x'', JInt 5)], [(lit ''x'', JInt 2)]]"
    by simp
  from columnar_trigger [OF h, of new_compressor] l three_objects_readable h
  show ?thesis by blast
qed

section \<open>The top-level test of \<open>decompress_json\<close>\<close>

lemma dict_set_values: "snd ` set (dict_set d k v) \<subseteq> insert v (snd ` set d)"
  by (induction d) (fastforce split: if_splits)+

lemma decompress_object_body_values:
  "decompress_object_body dec obj acc kmap = Inr r \<Longrightarrow>
     \<exists>Y. r = JObj Y \<and>
       (\<forall>w \<in> snd ` set Y. w \<in> snd ` set acc \<or> (\<exists>u \<in> snd ` set obj. dec u = Inr w))"
proof (induction obj arbitrary: acc)
  case Nil
  then show ?case by auto
next
  case (Cons kv obj)
  obtain k v where kv: "kv = (k, v)" by (cases kv)
  define original_key where
    "original_key = (case rmap_get kmap (JStr k) of None \<Rightarrow> k | Some k' \<Rightarrow> k')"
  from Cons.prems kv obtain x where dv: "dec v = Inr x"
    and rest: "decompress_object_body dec obj (dict_set acc original_key x) kmap = Inr r"
    by (auto simp: original_key_def Let_def split: sum.splits)
  from Cons.IH [OF rest] obtain Y where Y: "r = JObj Y"
    and vals: "\<forall>w \<in> snd ` set Y. w \<in> snd ` set (dict_set acc original_key x) \<or>
                 (\<exists>u \<in> snd ` set obj. dec u = Inr w)"
    by blast
  have "w \<in> snd ` set acc \<or> (\<exists>u \<in> snd ` set (kv # obj). dec u = Inr w)"
    if "w \<in> snd ` set Y" for w
  proof -
    from vals that consider "w \<in> snd ` set (dict_set acc original_key x)"
      | "\<exists>u \<in> snd ` set obj. dec u = Inr w"
      by blast
    then show ?thesis
    proof cases
      case 1
      with dict_set_values [of acc original_key x] have "w = x \<or> w \<in> snd ` set acc"
        by blast
      with dv kv show ?thesis by force
    next
      case 2
      then show ?thesis by auto
    qed
  qed
  with Y show ?case by blast
qed

lemma decompress_array_body_array:
  "decompress_array_body dec d kmap = Inr r \<Longrightarrow> \<exists>rows. r = JArr rows"
  by (auto simp: decompress_array_body_def Let_def split: sum.splits)

lemma decompress_value_body_object:
  assumes "decompress_value_body dec v kmap = Inr (JObj Y)"
  shows "\<exists>obj. v = JObj obj \<and> (\<forall>w \<in> snd ` set Y. \<exists>u \<in> snd ` set obj. dec u = Inr w)"
proof (cases v)
  case (JObj obj)
  from assms JObj have "decompress_object_body dec obj [] kmap = Inr (JObj Y)"
    by (auto simp: decompress_value_body_def split: sum.splits if_splits
        dest: decompress_array_body_array)
  from decompress_object_body_values [OF this] JObj show ?thesis
    by auto
qed (use assms in \<open>auto simp: decompress_value_body_def split: sum.splits if_splits list.splits\<close>)

lemma decompress_value_not_own_field:
  "decompress_value fuel v kmap = Inr (JObj Y) \<Longrightarrow> v \<notin> snd ` set Y"
proof (induction fuel arbitrary: v Y)
  case 0
  then show ?case by simp
next
  case (Suc fuel)
  from Suc.prems have "decompress_value_body (\<lambda>x. decompress_value fuel x kmap) v kmap = Inr (JObj Y)"
    by simp
  from decompress_value_body_object [OF this] obtain obj where v: "v = JObj obj"
    and vals: "\<forall>w \<in> snd ` set Y. \<exists>u \<in> snd ` set obj. decompress_value fuel u kmap = Inr w"
    by blast
  show ?case
  proof
    assume "v \<in> snd ` set Y"
    with vals v obtain u where u: "u \<in> snd ` set obj"
      and du: "decompress_value fuel u kmap = Inr (JObj obj)"
      by blast
    from Suc.IH [OF du] u show False by simp
  qed
qed

lemma decompress_changes_envelope:
  assumes "has_key d (lit ''d'')"
  shows "decompress fuel d \<noteq> Inr (JObj d)"
proof
  assume a: "decompress fuel d = Inr (JObj d)"
  from assms obtain v where v: "map_of d (lit ''d'') = Some v"
    by (auto simp: has_key_def)
  then have mem: "v \<in> snd ` set d"
    by (force dest: map_of_SomeD)
  from a v obtain reverse_map where "decompress_value fuel v reverse_map = Inr (JObj d)"
    by (auto simp: decompress_def getitem_def split: sum.splits)
  from decompress_value_not_own_field [OF this] mem show False by simp
qed

text \<open>
  Claim C5.  \<open>decompress_json\<close> returns the parsed value unchanged exactly when it is
  not an object with a field \<open>d\<close>; an object with a field \<open>d\<close> is handed to
  \<open>decompress\<close> as an envelope, whose result is never the object itself.  This
  includes an object with a field \<open>d\<close> that \<open>compress_json\<close> has emitted verbatim
  by the size fallback.
\<close>

theorem decompress_json_envelope_test:
  "((decompress_json fuel data = Inr data) =
      (\<not> (\<exists>d. data = JObj d \<and> has_key d (lit ''d'')))) \<and>
   (\<forall>d. data = JObj d \<and> has_key d (lit ''d'') \<longrightarrow>
      decompress_json fuel data = decompress fuel d) \<and>
   (\<forall>d. data = JObj d \<and> has_key d (lit ''d'') \<and> compress_json_data data = Inr data \<longrightarrow>
      decompress_json fuel data = decompress fuel d \<and> decompress fuel d \<noteq> Inr data)"
proof (cases "\<exists>d. data = JObj d \<and> has_key d (lit ''d'')")
  case True
  then obtain d where d: "data = JObj d" "has_key d (lit ''d'')"
    by blast
  then have e: "decompress_json fuel data = decompress fuel d"
    by (simp add: decompress_json_def)
  with decompress_changes_envelope [OF d(2), of fuel] d show ?thesis
    by auto
next
  case False
  then have "decompress_json fuel data = Inr data"
    by (cases data) (auto simp: decompress_json_def)
  with False show ?thesis by blast
qed

theorem decompress_json_envelope_test_witness:
  "has_key [(lit ''d'', JInt 1)] (lit ''d'') \<and>
   compress_json_data (JObj [(lit ''d'', JInt 1)]) = Inr (JObj [(lit ''d'', JInt 1)]) \<and>
   decompress_json 1 (JObj [(lit ''d'', JInt 1)]) = decompress 1 [(lit ''d'', JInt 1)] \<and>
   decompress 1 [(lit ''d'', JInt 1)] \<noteq> Inr (JObj [(lit ''d'', JInt 1)]) \<and>
   decompress_json 1 (JArr [JInt 1]) = Inr (JArr [JInt 1])"
proof -
  have h: "has_key [(lit ''d'', JInt 1)] (lit ''d'')"
    by (simp add: has_key_def)
  have n: "\<not> (\<exists>d. JArr [JInt 1] = JObj d \<and> has_key d (lit ''d''))"
    by simp
  from decompress_json_envelope_test [of 1 "JObj [(lit ''d'', JInt 1)]"]
    decompress_json_envelope_test [of 1 "JArr [JInt 1]"] h n fallback_of_d_object
  show ?thesis by blast
qed

section \<open>Strings that begin with a tag letter\<close>

lemma brown_is_passed_through:
  "compress_value (JStr (lit ''Brown'')) st = Inr (JStr (lit ''Brown''), st)"
  by (simp add: lit_def)

lemma b64decode_rown: "b64decode (lit ''rown'') = Inr [174, 140, 39]"
  by code_simp

lemma unpack_brown: "unpack_numbers (lit ''Brown'') = Inr [- 82, - 116, 39]"
proof -
  have "struct_unpack 1 [174, 140, 39] = Inr [- 82, - 116, 39]"
    by code_simp
  moreover have "lit ''Brown'' = 66 # lit ''rown''"
    by (simp add: lit_def)
  ultimately show ?thesis
    by (simp add: unpack_numbers_def b64decode_rown)
qed

lemma brown_is_unpacked:
  "decompress_value (Suc fuel) (JStr (lit ''Brown'')) kmap =
     Inr (JArr [JInt (- 82), JInt (- 116), JInt 39])"
proof -
  have "lit ''Brown'' = 66 # lit ''rown''"
    by (simp add: lit_def)
  then show ?thesis
    using unpack_brown by (simp add: decompress_value_body_def)
qed

lemma brown_envelope:
  "compress_json_data
     (JArr [JStr (lit ''Brown''), JArr (map JInt [1, 2, 3, 4, 5, 6, 7, 8, 9, 10, 11, 12, 13, 14])]) =
   Inr (JObj [(lit ''d'',
        JArr [JStr (lit ''Brown''),
              JObj [(lit ''s'', JInt 1), (lit ''d'', JInt 1), (lit ''n'', JInt 14)]])])"
  by code_simp

lemma brown_decoded:
  "decompress_json 3
     (JObj [(lit ''d'',
        JArr [JStr (lit ''Brown''),
              JObj [(lit ''s'', JInt 1), (lit ''d'', JInt 1), (lit ''n'', JInt 14)]])]) =
   Inr (JArr [JArr [JInt (- 82), JInt (- 116), JInt 39],
              JArr (map JInt [1, 2, 3, 4, 5, 6, 7, 8, 9, 10, 11, 12, 13, 14])])"
  by code_simp

text \<open>
  Claim C4 says that a string the encoder emits unchanged is returned as it is by the
  decoder, whose dispatch on a leading \<open>S\<close>, \<open>T\<close>, \<open>B\<close>, \<open>H\<close>, \<open>I\<close> or \<open>D\<close> it never
  triggers.  \<open>_compress_value\<close> emits \<open>Brown\<close> unchanged, and \<open>_decompress_value\<close>
  takes its \<open>B\<close> for the tag of packed 8-bit integers: \<open>rown\<close> is base64 for three
  bytes, and the result is \<open>[-82, -116, 39]\<close>.  For \<open>["Brown", [1, 2, ..., 14]]\<close>
  the envelope (36 characters) is shorter than the plain text (44), so
  \<open>compress_json\<close> returns it, and \<open>decompress_json\<close> returns
  \<open>[[-82, -116, 39], [1, 2, ..., 14]]\<close>.
\<close>

theorem tag_dispatch_on_passthrough_string:
  "compress_value (JStr (lit ''Brown'')) st = Inr (JStr (lit ''Brown''), st) \<and>
   decompress_value (Suc fuel) (JStr (lit ''Brown'')) kmap =
     Inr (JArr [JInt (- 82), JInt (- 116), JInt 39]) \<and>
   compress_json_data
     (JArr [JStr (lit ''Brown''), JArr (map JInt [1, 2, 3, 4, 5, 6, 7, 8, 9, 10, 11, 12, 13, 14])]) =
     Inr (JObj [(lit ''d'',
        JArr [JStr (lit ''Brown''),
              JObj [(lit ''s'', JInt 1), (lit ''d'', JInt 1), (lit ''n'', JInt 14)]])]) \<and>
   decompress_json 3
     (JObj [(lit ''d'',
        JArr [JStr (lit ''Brown''),
              JObj [(lit ''s'', JInt 1), (lit ''d'', JInt 1), (lit ''n'', JInt 14)]])]) =
     Inr (JArr [JArr [JInt (- 82), JInt (- 116), JInt 39],
                JArr (map JInt [1, 2, 3, 4, 5, 6, 7, 8, 9, 10, 11, 12, 13, 14])])"
  using brown_is_passed_through [of st] brown_is_unpacked [of fuel kmap] brown_envelope brown_decoded
  by blast

section \<open>base64 and decimal text are read back\<close>

lemma b64chars_distinct: "distinct b64chars"
  by (simp add: b64chars_def lit_def)

lemma index_of_nth: "distinct xs \<Longrightarrow> n < length xs \<Longrightarrow> index_of xs (xs ! n) = Some n"
proof (induction xs arbitrary: n)
  case Nil
  then show ?case by simp
next
  case (Cons x xs)
  show ?case
  proof (cases n)
    case 0
    then show ?thesis by simp
  next
    case (Suc m)
    with Cons.prems have "xs ! m \<in> set xs" "x \<notin> set xs" by simp_all
    then have "x \<noteq> xs ! m" by blast
    with Suc Cons show ?thesis by simp
  qed
qed

lemma b64chars_set: "list_all (\<lambda>c. c \<noteq> 61 \<and> c \<noteq> 58 \<and> c < 128) b64chars"
  by (simp add: b64chars_def lit_def)

lemma b64chars_length: "length b64chars = 64"
  by (simp add: b64chars_def lit_def)

lemma b64chars_nth:
  assumes "n < 64"
  shows "index_of b64chars (b64chars ! n) = Some n" and "b64chars ! n \<noteq> 61"
    and "b64chars ! n \<noteq> 58" and "b64chars ! n < 128"
proof -
  show "index_of b64chars (b64chars ! n) = Some n"
    using index_of_nth [OF b64chars_distinct] assms by (simp add: b64chars_length)
  have "b64chars ! n \<in> set b64chars"
    using assms by (simp add: b64chars_length)
  with b64chars_set show "b64chars ! n \<noteq> 61" "b64chars ! n \<noteq> 58" "b64chars ! n < 128"
    unfolding list_all_iff by blast+
qed

lemma sextets:
  fixes a b c :: nat
  assumes "a < 256" "b < 256" "c < 256"
  shows "a div 4 < 64" "a mod 4 * 16 < 64" "a mod 4 * 16 + b div 16 < 64"
    "b mod 16 * 4 < 64" "b mod 16 * 4 + c div 64 < 64" "c mod 64 < 64"
proof -
  have a4: "a mod 4 < 4" and b16: "b mod 16 < 16" by simp_all
  from assms have bd: "b div 16 < 16" and cd: "c div 64 < 4"
    by (simp_all add: div_less_iff_less_mult)
  from assms show "a div 4 < 64"
    by (simp add: div_less_iff_less_mult)
  from a4 show "a mod 4 * 16 < 64" by simp
  from a4 bd show "a mod 4 * 16 + b div 16 < 64" by simp
  from b16 show "b mod 16 * 4 < 64" by simp
  from b16 cd show "b mod 16 * 4 + c div 64 < 64" by simp
  show "c mod 64 < 64" by simp
qed

lemma octets:
  fixes a b c :: nat
  assumes "a < 256" "b < 256" "c < 256"
  shows "a div 4 * 4 + a mod 4 * 16 div 16 = a"
    "a div 4 * 4 + (a mod 4 * 16 + b div 16) div 16 = a"
    "(a mod 4 * 16 + b div 16) mod 16 * 16 + b mod 16 * 4 div 4 = b"
    "(a mod 4 * 16 + b div 16) mod 16 * 16 + (b mod 16 * 4 + c div 64) div 4 = b"
    "(b mod 16 * 4 + c div 64) mod 4 * 64 + c mod 64 = c"
proof -
  from assms have bd: "b div 16 < 16" and cd: "c div 64 < 4"
    by (simp_all add: div_less_iff_less_mult)
  show "a div 4 * 4 + a mod 4 * 16 div 16 = a" by simp
  from bd show "a div 4 * 4 + (a mod 4 * 16 + b div 16) div 16 = a" by simp
  from bd show "(a mod 4 * 16 + b div 16) mod 16 * 16 + b mod 16 * 4 div 4 = b" by simp
  from bd cd show "(a mod 4 * 16 + b div 16) mod 16 * 16 + (b mod 16 * 4 + c div 64) div 4 = b"
    by simp
  from cd show "(b mod 16 * 4 + c div 64) mod 4 * 64 + c mod 64 = c" by simp
qed

lemma a2b_base64_b64encode:
  "list_all (\<lambda>b. b < 256) bs \<Longrightarrow> a2b_base64 (b64encode bs) 0 l p out = Inr (out @ bs)"
proof (induction bs arbitrary: l p out rule: b64encode.induct)
  case 1
  then show ?case by simp
next
  case (2 a)
  then have a: "a < 256" by simp
  show ?case
    using sextets(1,2) [OF a a a] octets(1) [OF a a a]
    by (simp add: b64chars_nth)
next
  case (3 a b)
  then have a: "a < 256" and b: "b < 256" by simp_all
  show ?case
    using sextets(1,3,4) [OF a b b] octets(2,3) [OF a b b]
    by (simp add: b64chars_nth)
next
  case (4 a b c rest)
  then have a: "a < 256" and b: "b < 256" and c: "c < 256"
    and rest: "list_all (\<lambda>b. b < 256) rest" by simp_all
  show ?case
    using sextets(1,3,5,6) [OF a b c] octets(2,4,5) [OF a b c] "4.IH" [OF rest]
    by (simp add: b64chars_nth)
qed

lemma b64encode_chars:
  "list_all (\<lambda>b. b < 256) bs \<Longrightarrow> list_all (\<lambda>c. c < 128 \<and> c \<noteq> 58) (b64encode bs)"
proof (induction bs rule: b64encode.induct)
  case 1
  then show ?case by simp
next
  case (2 a)
  then have a: "a < 256" by simp
  show ?case
    using sextets(1,2) [OF a a a] by (simp add: b64chars_nth)
next
  case (3 a b)
  then have a: "a < 256" and b: "b < 256" by simp_all
  show ?case
    using sextets(1,3,4) [OF a b b] by (simp add: b64chars_nth)
next
  case (4 a b c rest)
  then have a: "a < 256" and b: "b < 256" and c: "c < 256"
    and rest: "list_all (\<lambda>b. b < 256) rest" by simp_all
  show ?case
    using sextets(1,3,5,6) [OF a b c] "4.IH" [OF rest] by (simp add: b64chars_nth)
qed

lemma b64decode_b64encode:
  assumes "list_all (\<lambda>b. b < 256) bs"
  shows "b64decode (b64encode bs) = Inr bs"
proof -
  have "list_all (\<lambda>c. c < 128) (b64encode bs)"
    using b64encode_chars [OF assms] by (simp add: list_all_iff)
  then show ?thesis
    using a2b_base64_b64encode [OF assms, of 0 0 "[]"] by (simp add: b64decode_def)
qed

lemma nat_str_digits: "list_all is_digit (nat_str n)"
proof (induction n rule: nat_str.induct)
  case (1 n)
  show ?case
  proof (cases "n < 10")
    case True
    then show ?thesis
      by (simp add: nat_str.simps [of n] is_digit_def)
  next
    case False
    have "n mod 10 < 10" by simp
    then have "is_digit (48 + n mod 10)"
      unfolding is_digit_def by linarith
    with False 1 show ?thesis
      by (simp add: nat_str.simps [of n])
  qed
qed

lemma nat_str_not_empty: "nat_str n \<noteq> []"
  by (simp add: nat_str.simps [of n])

lemma parse_digits_snoc:
  "list_all is_digit ds \<Longrightarrow> is_digit d \<Longrightarrow>
     parse_digits (ds @ [d]) acc = map_option (\<lambda>m. 10 * m + (d - 48)) (parse_digits ds acc)"
  by (induction ds acc rule: parse_digits.induct) simp_all

lemma parse_digits_nat_str: "parse_digits (nat_str n) 0 = Some n"
proof (induction n rule: nat_str.induct)
  case (1 n)
  show ?case
  proof (cases "n < 10")
    case True
    then show ?thesis
      by (simp add: nat_str.simps [of n] is_digit_def)
  next
    case False
    have "n mod 10 < 10" by simp
    then have d: "is_digit (48 + n mod 10)"
      unfolding is_digit_def by linarith
    from False 1 have "parse_digits (nat_str (n div 10)) 0 = Some (n div 10)"
      by simp
    with False show ?thesis
      by (simp add: nat_str.simps [of n] parse_digits_snoc [OF nat_str_digits d])
  qed
qed

lemma digit_facts:
  assumes "is_digit c"
  shows "\<not> is_space c" and "c \<noteq> 45" and "c \<noteq> 43" and "\<not> 128 \<le> c"
  using assms by (auto simp: is_digit_def is_space_def)

lemma dropWhile_space_digits:
  assumes "list_all is_digit s"
  shows "dropWhile is_space s = s"
proof (cases s)
  case Nil
  then show ?thesis by simp
next
  case (Cons c cs)
  with assms have "is_digit c" by simp
  with Cons show ?thesis
    by (simp add: digit_facts)
qed

lemma py_int_nat_str: "py_int (nat_str n) = Inr (int n)"
proof -
  have d: "list_all is_digit (nat_str n)"
    by (rule nat_str_digits)
  then have r: "list_all is_digit (rev (nat_str n))"
    by (simp add: list_all_iff)
  have strip: "rev (dropWhile is_space (rev (dropWhile is_space (nat_str n)))) = nat_str n"
    by (simp add: dropWhile_space_digits [OF d] dropWhile_space_digits [OF r])
  have ascii: "\<not> list_ex (\<lambda>c. 128 \<le> c) (nat_str n)"
    using d by (auto simp: list_ex_iff list_all_iff digit_facts)
  obtain c cs where s: "nat_str n = c # cs"
    using nat_str_not_empty [of n] by (cases "nat_str n") auto
  with d have c: "is_digit c" by simp
  have "parse_nat (c # cs) = Some n"
    using parse_digits_nat_str [of n] s c by (simp add: parse_nat_def)
  with ascii strip s c show ?thesis
    by (simp add: py_int_def digit_facts)
qed

lemma split_colon_at:
  assumes "list_all (\<lambda>c. c \<noteq> 58) xs"
  shows "split_colon (xs @ 58 # ys) = (xs, Some ys)"
proof -
  from assms have a: "\<And>x. x \<in> set xs \<Longrightarrow> x \<noteq> 58"
    by (simp add: list_all_iff)
  then have "dropWhile (\<lambda>c. c \<noteq> 58) (xs @ 58 # ys) = 58 # ys"
    by (simp add: dropWhile_append2)
  moreover from a have "takeWhile (\<lambda>c. c \<noteq> 58) (xs @ 58 # ys) = xs"
    by (simp add: takeWhile_append2)
  ultimately show ?thesis
    by (simp add: split_colon_def)
qed

lemma map_result_Inr:
  "(\<And>x. x \<in> set xs \<Longrightarrow> f x = Inr (g x)) \<Longrightarrow> map_result f xs = Inr (map g xs)"
  by (induction xs) simp_all

section \<open>Bit packing\<close>

lemma set_bits_length: "length (set_bits bools i byte_array) = length byte_array"
  by (induction bools arbitrary: i byte_array) simp_all

lemma or_bit_below_256:
  fixes a :: nat
  assumes "a < 256" and "k < 8"
  shows "a OR push_bit k 1 < 256"
proof -
  have a: "take_bit 8 a = a"
    using assms(1) by (simp add: take_bit_nat_eq_self)
  have k: "take_bit 8 (push_bit k (1::nat)) = push_bit k 1"
    using assms(2) by simp
  have "take_bit 8 (a OR push_bit k 1) = a OR push_bit k 1"
    using assms(2) by (simp add: take_bit_or a)
  moreover have "take_bit 8 (a OR push_bit k 1) < 2 ^ 8"
    by (rule take_bit_nat_less_exp)
  ultimately show ?thesis by simp
qed

lemma set_bits_bytes:
  "list_all (\<lambda>b. b < 256) byte_array \<Longrightarrow> list_all (\<lambda>b. b < 256) (set_bits bools i byte_array)"
proof (induction bools arbitrary: i byte_array)
  case Nil
  then show ?case by simp
next
  case (Cons b bools)
  let ?new = "byte_array[i div 8 := (byte_array ! (i div 8)) OR (push_bit (i mod 8) 1)]"
  have "list_all (\<lambda>b. b < 256) ?new"
  proof (cases "i div 8 < length byte_array")
    case True
    with Cons.prems have "byte_array ! (i div 8) < 256"
      by (simp add: list_all_length)
    then have "(byte_array ! (i div 8)) OR (push_bit (i mod 8) 1) < 256"
      by (rule or_bit_below_256) simp
    with Cons.prems show ?thesis
      unfolding list_all_iff using set_update_subset_insert [of byte_array "i div 8"] by blast
  next
    case False
    with Cons.prems show ?thesis by (simp add: list_update_beyond)
  qed
  with Cons show ?case by simp
qed

lemma same_byte_and_bit: "(j div 8 = i div 8 \<and> j mod 8 = i mod 8) = (j = (i::nat))"
  by (metis div_mult_mod_eq)

lemma set_bits_bit:
  assumes "i + length bools \<le> 8 * length byte_array" and "j < 8 * length byte_array"
  shows "bit (set_bits bools i byte_array ! (j div 8)) (j mod 8) =
           (bit (byte_array ! (j div 8)) (j mod 8) \<or>
            (i \<le> j \<and> j < i + length bools \<and> bools ! (j - i)))"
  using assms
proof (induction bools arbitrary: i byte_array)
  case Nil
  then show ?case by auto
next
  case (Cons b bools)
  let ?new = "if b then byte_array[i div 8 := (byte_array ! (i div 8)) OR (push_bit (i mod 8) 1)]
              else byte_array"
  have len: "length ?new = length byte_array" by simp
  from Cons.prems have i: "i div 8 < length byte_array" and j: "j div 8 < length byte_array"
    by (simp_all add: div_less_iff_less_mult mult.commute)
  have new: "bit (?new ! (j div 8)) (j mod 8) = (bit (byte_array ! (j div 8)) (j mod 8) \<or> (b \<and> j = i))"
  proof (cases b)
    case False
    then show ?thesis by simp
  next
    case True
    show ?thesis
    proof (cases "j div 8 = i div 8")
      case same: True
      have "bit (push_bit (i mod 8) (1::nat)) (j mod 8) = (j mod 8 = i mod 8)"
        by (auto simp: bit_push_bit_iff bit_1_iff bit_exp_iff)
      with True same i same_byte_and_bit [of j i] show ?thesis
        by (auto simp: bit_or_iff)
    next
      case False
      with True same_byte_and_bit [of j i] show ?thesis
        by auto
    qed
  qed
  from Cons.prems have "Suc i + length bools \<le> 8 * length ?new" and "j < 8 * length ?new"
    by simp_all
  from Cons.IH [OF this]
  have "bit (set_bits bools (Suc i) ?new ! (j div 8)) (j mod 8) =
          (bit (?new ! (j div 8)) (j mod 8) \<or>
           (Suc i \<le> j \<and> j < Suc i + length bools \<and> bools ! (j - Suc i)))" .
  moreover have "(b \<and> j = i \<or> (Suc i \<le> j \<and> j < Suc i + length bools \<and> bools ! (j - Suc i))) =
                 (i \<le> j \<and> j < i + length (b # bools) \<and> (b # bools) ! (j - i))"
  proof (cases "j = i")
    case True
    then show ?thesis by simp
  next
    case False
    show ?thesis
    proof (cases "i < j")
      case True
      then obtain m where "j - i = Suc m" "j - Suc i = m"
        by (metis Suc_diff_Suc diff_Suc_eq_diff_pred Suc_pred zero_less_diff)
      with True False show ?thesis by auto
    next
      case False
      with \<open>j \<noteq> i\<close> show ?thesis by auto
    qed
  qed
  ultimately show ?case
    using new by auto
qed

lemma packed_bits:
  assumes "j < 8 * ((length bools + 7) div 8)"
  shows "bit (set_bits bools 0 (replicate ((length bools + 7) div 8) 0) ! (j div 8)) (j mod 8) =
           (j < length bools \<and> bools ! j)"
proof -
  have "0 + length bools \<le> 8 * length (replicate ((length bools + 7) div 8) (0::nat))"
    by simp
  moreover have "j < 8 * length (replicate ((length bools + 7) div 8) (0::nat))"
    using assms by simp
  ultimately have "bit (set_bits bools 0 (replicate ((length bools + 7) div 8) 0) ! (j div 8)) (j mod 8) =
           (bit (replicate ((length bools + 7) div 8) (0::nat) ! (j div 8)) (j mod 8) \<or>
            (0 \<le> j \<and> j < 0 + length bools \<and> bools ! (j - 0)))"
    by (rule set_bits_bit)
  moreover have "j div 8 < (length bools + 7) div 8"
    using assms by (simp add: div_less_iff_less_mult mult.commute)
  ultimately show ?thesis by simp
qed

lemma unpack_pack_booleans: "unpack_booleans (pack_booleans bools) = Inr bools"
proof -
  define byte_array where
    "byte_array = set_bits bools 0 (replicate ((length bools + 7) div 8) 0)"
  have len: "length byte_array = (length bools + 7) div 8"
    by (simp add: byte_array_def set_bits_length)
  have bytes: "list_all (\<lambda>b. b < 256) byte_array"
    unfolding byte_array_def by (rule set_bits_bytes) (simp add: list_all_iff)
  have packed: "pack_booleans bools = 84 # (b64encode byte_array @ 58 # nat_str (length bools))"
    by (simp add: pack_booleans_def byte_array_def lit_def Let_def)
  have "list_all (\<lambda>c. c \<noteq> 58) (b64encode byte_array)"
    using b64encode_chars [OF bytes] by (simp add: list_all_iff)
  then have split: "split_colon (b64encode byte_array @ 58 # nat_str (length bools)) =
      (b64encode byte_array, Some (nat_str (length bools)))"
    by (rule split_colon_at)
  have bits: "map_result
         (\<lambda>i. if i div 8 < length byte_array
               then Inr ((byte_array ! (i div 8)) AND (push_bit (i mod 8) 1) \<noteq> 0)
               else Inl IndexError)
         [0..<length bools] = Inr (map ((!) bools) [0..<length bools])"
  proof (rule map_result_Inr)
    fix i
    assume "i \<in> set [0..<length bools]"
    then have i: "i < length bools" by simp
    then have i8: "i < 8 * ((length bools + 7) div 8)"
      by arith
    then have "i div 8 < length byte_array"
      by (simp add: len div_less_iff_less_mult mult.commute)
    moreover have "((byte_array ! (i div 8)) AND (push_bit (i mod 8) 1) \<noteq> 0) = bools ! i"
      using packed_bits [OF i8] i
      by (simp add: byte_array_def bit_iff_and_push_bit_not_eq_0)
    ultimately show "(if i div 8 < length byte_array
               then Inr ((byte_array ! (i div 8)) AND (push_bit (i mod 8) 1) \<noteq> 0)
               else Inl IndexError) = Inr (bools ! i)"
      by simp
  qed
  show ?thesis
    by (simp add: unpack_booleans_def packed split b64decode_b64encode [OF bytes]
        py_int_nat_str bits map_nth)
qed

section \<open>Arrays of booleans\<close>

lemma all_of_as_bool_map: "all_of as_bool (map JBool bools) = Some bools"
  by (induction bools) simp_all

lemma is_constant_bools:
  "is_constant (map JBool (b0 # rest)) = list_all (\<lambda>b. b = b0) (b0 # rest)"
proof -
  have "py_eq (JBool b) (JBool b0) = (b = b0)" for b
    by simp
  then have "list_all (\<lambda>v. py_eq v (JBool b0)) (map JBool bs) = list_all (\<lambda>b. b = b0) bs" for bs
    by (induction bs) simp_all
  from this [of "b0 # rest"] show ?thesis
    by (simp add: is_constant_def)
qed

lemma boolean_array_of_bools:
  "boolean_array (map JBool (b0 # rest)) =
     (if list_all (\<lambda>b. b = b0) (b0 # rest)
      then Some (constant_record (JBool b0) (map JBool (b0 # rest)))
      else if 3 \<le> length (b0 # rest) then Some (JStr (pack_booleans (b0 # rest)))
      else None)"
  unfolding boolean_array_def all_of_as_bool_map is_constant_bools by simp

lemma compress_array_boolean:
  assumes "boolean_array arr = Some r"
  shows "compress_array arr st = Inr (r, st)"
proof -
  have "boolean_array [] = None"
    by (simp add: boolean_array_def is_constant_def)
  with assms have "arr \<noteq> []" by auto
  with assms show ?thesis
    by (simp add: compress_array.simps)
qed

lemma constant_bools: "list_all (\<lambda>b. b = b0) bs \<Longrightarrow> map JBool bs = replicate (length bs) (JBool b0)"
  by (induction bs) simp_all

lemma decode_constant_bools:
  assumes "list_all (\<lambda>b. b = b0) (b0 # rest)"
  shows "decompress_value (Suc (Suc fuel)) (constant_record (JBool b0) (map JBool (b0 # rest))) kmap =
           Inr (JArr (map JBool (b0 # rest)))"
proof -
  have inner: "decompress_value (Suc fuel) (JBool b0) kmap = Inr (JBool b0)"
    by (simp add: decompress_value_body_def)
  have nat_int_Suc: "nat (1 + int (length rest)) = Suc (length rest)"
    by simp
  have "decompress_value (Suc (Suc fuel)) (constant_record (JBool b0) (map JBool (b0 # rest))) kmap =
          decompress_value_body (\<lambda>x. decompress_value (Suc fuel) x kmap)
            (constant_record (JBool b0) (map JBool (b0 # rest))) kmap"
    by (rule decompress_value.simps(2))
  also have "\<dots> = Inr (JArr (replicate (length (b0 # rest)) (JBool b0)))"
    using inner nat_int_Suc
    by (simp add: decompress_value_body_def constant_record_def has_key_def getitem_def lit_def
        py_count_def del: decompress_value.simps)
  finally show ?thesis
    using constant_bools [OF assms] by simp
qed

lemma decode_packed_bools:
  "decompress_value (Suc fuel) (JStr (pack_booleans bools)) kmap = Inr (JArr (map JBool bools))"
proof -
  obtain rest where "pack_booleans bools = 84 # rest"
    by (simp add: pack_booleans_def lit_def Let_def)
  then show ?thesis
    using unpack_pack_booleans [of bools] by (simp add: decompress_value_body_def)
qed

text \<open>
  Claim C8 says that a constant run of booleans requires at least 2 elements.  In
  \<open>compressed_readable.py\<close> \<open>_is_constant\<close> asks for \<open>len(values) > 0\<close>, and the
  one-element array \<open>[true]\<close> is encoded as the constant record \<open>{"c": true, "n": 1}\<close>.
\<close>

theorem single_boolean_constant_record_counterexample:
  "compress_array [JBool True] new_compressor =
     Inr (JObj [(lit ''c'', JBool True), (lit ''n'', JInt 1)], new_compressor) \<and>
   length [JBool True] < 2"
proof -
  have "boolean_array [JBool True] = Some (JObj [(lit ''c'', JBool True), (lit ''n'', JInt 1)])"
    using boolean_array_of_bools [of True "[]"] by (simp add: constant_record_def)
  from compress_array_boolean [OF this, of new_compressor] show ?thesis
    by simp
qed

text \<open>
  Claim C8, amended.  For a non-empty array of booleans: if all elements are equal (one
  element is enough), \<open>_compress_array\<close> returns the constant record
  \<open>{"c": value, "n": count}\<close> and not a bit-packed buffer, and the decoder expands it to the
  original sequence; otherwise, if the length is at least 3, it returns the text
  \<open>T\<close>, the base64 of \<open>(count + 7) // 8\<close> bytes, a colon and the count, where bit
  \<open>i % 8\<close> of byte \<open>i // 8\<close> is element \<open>i\<close> (least significant bit first) and the bits
  beyond the count are zero, and the decoder restores exactly the original sequence.
\<close>

theorem boolean_array_encoding:
  "(list_all (\<lambda>b. b = b0) (b0 # rest) \<longrightarrow>
      compress_array (map JBool (b0 # rest)) st =
        Inr (JObj [(lit ''c'', JBool b0), (lit ''n'', JInt (int (length (b0 # rest))))], st) \<and>
      decompress_value (Suc (Suc fuel))
        (JObj [(lit ''c'', JBool b0), (lit ''n'', JInt (int (length (b0 # rest))))]) kmap =
        Inr (JArr (map JBool (b0 # rest)))) \<and>
   (\<not> list_all (\<lambda>b. b = b0) (b0 # rest) \<and> 3 \<le> length (b0 # rest) \<longrightarrow>
      compress_array (map JBool (b0 # rest)) st = Inr (JStr (pack_booleans (b0 # rest)), st) \<and>
      (\<exists>byte_array.
         pack_booleans (b0 # rest) =
           lit ''T'' @ b64encode byte_array @ lit '':'' @ nat_str (length (b0 # rest)) \<and>
         length byte_array = (length (b0 # rest) + 7) div 8 \<and>
         (\<forall>i < 8 * length byte_array.
            bit (byte_array ! (i div 8)) (i mod 8) = (i < length (b0 # rest) \<and> (b0 # rest) ! i))) \<and>
      decompress_value (Suc fuel) (JStr (pack_booleans (b0 # rest))) kmap =
        Inr (JArr (map JBool (b0 # rest))))"
proof (intro conjI impI)
  assume c: "list_all (\<lambda>b. b = b0) (b0 # rest)"
  have "boolean_array (map JBool (b0 # rest)) =
          Some (JObj [(lit ''c'', JBool b0), (lit ''n'', JInt (int (length (b0 # rest))))])"
    unfolding boolean_array_of_bools constant_record_def using c by simp
  then show "compress_array (map JBool (b0 # rest)) st =
        Inr (JObj [(lit ''c'', JBool b0), (lit ''n'', JInt (int (length (b0 # rest))))], st)"
    by (rule compress_array_boolean)
  from decode_constant_bools [OF c, of fuel kmap]
  show "decompress_value (Suc (Suc fuel))
        (JObj [(lit ''c'', JBool b0), (lit ''n'', JInt (int (length (b0 # rest))))]) kmap =
        Inr (JArr (map JBool (b0 # rest)))"
    by (simp add: constant_record_def del: decompress_value.simps)
next
  assume n: "\<not> list_all (\<lambda>b. b = b0) (b0 # rest) \<and> 3 \<le> length (b0 # rest)"
  have "boolean_array (map JBool (b0 # rest)) = Some (JStr (pack_booleans (b0 # rest)))"
    unfolding boolean_array_of_bools using n by simp
  then show "compress_array (map JBool (b0 # rest)) st = Inr (JStr (pack_booleans (b0 # rest)), st)"
    by (rule compress_array_boolean)
  let ?bytes = "set_bits (b0 # rest) 0 (replicate ((length (b0 # rest) + 7) div 8) 0)"
  have "pack_booleans (b0 # rest) =
           lit ''T'' @ b64encode ?bytes @ lit '':'' @ nat_str (length (b0 # rest))"
    by (simp add: pack_booleans_def Let_def)
  moreover have l: "length ?bytes = (length (b0 # rest) + 7) div 8"
    by (simp add: set_bits_length)
  moreover have "\<forall>i < 8 * length ?bytes.
            bit (?bytes ! (i div 8)) (i mod 8) = (i < length (b0 # rest) \<and> (b0 # rest) ! i)"
    using packed_bits [of _ "b0 # rest"] unfolding l by blast
  ultimately show "\<exists>byte_array.
         pack_booleans (b0 # rest) =
           lit ''T'' @ b64encode byte_array @ lit '':'' @ nat_str (length (b0 # rest)) \<and>
         length byte_array = (length (b0 # rest) + 7) div 8 \<and>
         (\<forall>i < 8 * length byte_array.
            bit (byte_array ! (i div 8)) (i mod 8) = (i < length (b0 # rest) \<and> (b0 # rest) ! i))"
    by blast
  show "decompress_value (Suc fuel) (JStr (pack_booleans (b0 # rest))) kmap =
        Inr (JArr (map JBool (b0 # rest)))"
    by (rule decode_packed_bools)
qed

lemma five_booleans_packed:
  "pack_booleans [True, False, True, True, False] = lit ''TDQ==:5''"
  by code_simp

theorem boolean_array_encoding_witness:
  "\<not> list_all (\<lambda>b. b = True) [True, False, True, True, False] \<and>
   3 \<le> length [True, False, True, True, False] \<and>
   pack_booleans [True, False, True, True, False] = lit ''TDQ==:5'' \<and>
   compress_array (map JBool [True, False, True, True, False]) new_compressor =
     Inr (JStr (pack_booleans [True, False, True, True, False]), new_compressor) \<and>
   decompress_value (Suc 0) (JStr (pack_booleans [True, False, True, True, False])) [] =
     Inr (JArr (map JBool [True, False, True, True, False])) \<and>
   list_all (\<lambda>b. b = False) [False, False] \<and>
   compress_array (map JBool [False, False]) new_compressor =
     Inr (JObj [(lit ''c'', JBool False), (lit ''n'', JInt (int (length [False, False])))],
          new_compressor)"
proof -
  have n: "\<not> list_all (\<lambda>b. b = True) [True, False, True, True, False] \<and>
           3 \<le> length [True, False, True, True, False]"
    by simp
  have c: "list_all (\<lambda>b. b = False) [False, False]"
    by simp
  from boolean_array_encoding [of True "[False, True, True, False]" new_compressor 0 "[]"]
    boolean_array_encoding [of False "[False]" new_compressor 0 "[]"]
    n c five_booleans_packed
  show ?thesis by blast
qed

section \<open>The width chosen by \<open>_pack_numbers\<close>\<close>


lemma struct_pack_fits:
  "list_all (fits width) ns \<Longrightarrow>
     struct_pack width ns = Inr (concat (map (\<lambda>n. le_bytes width (nat (n mod 2 ^ (8 * width)))) ns))"
  by (induction ns) (simp_all add: pack_int_def fits_def)

lemma struct_pack_raises:
  "\<not> list_all (fits width) ns \<Longrightarrow> struct_pack width ns = Inl StructError"
  by (induction ns) (auto simp: pack_int_def fits_def split: sum.splits)

lemma all_of_as_int_map: "all_of as_int (map JInt ns) = Some ns"
  by (induction ns) simp_all

text \<open>
  For an array of integers of length at least 3 that
  is neither an arithmetic progression nor constant, \<open>_compress_array\<close> returns what
  \<open>_pack_numbers\<close> returns: the tag \<open>B\<close>, \<open>H\<close> or \<open>I\<close> of the narrowest of 8, 16 and 32
  bits that holds every element, followed by the base64 of the little-endian two's
  complement bytes; when an element is outside the 32-bit range it raises.  An array
  with constant successive differences gives the delta record instead.
\<close>

theorem narrowest_integer_width:
  assumes "3 \<le> length ns"
  shows "(is_sequential (map JInt ns) \<longrightarrow>
            numeric_array (map JInt ns) =
              Some (Inr (JObj [(lit ''s'', JInt (ns ! 0)), (lit ''d'', JInt (ns ! 1 - ns ! 0)),
                               (lit ''n'', JInt (int (length ns)))]))) \<and>
         (\<not> is_sequential (map JInt ns) \<and> \<not> is_constant (map JInt ns) \<longrightarrow>
            numeric_array (map JInt ns) =
              Some (case pack_numbers ns of Inl e \<Rightarrow> Inl e | Inr s \<Rightarrow> Inr (JStr s)) \<and>
            pack_numbers ns =
              (if list_all (fits 1) ns then
                 Inr (lit ''B'' @ b64encode (concat (map (\<lambda>n. le_bytes 1 (nat (n mod 2 ^ 8))) ns)))
               else if list_all (fits 2) ns then
                 Inr (lit ''H'' @ b64encode (concat (map (\<lambda>n. le_bytes 2 (nat (n mod 2 ^ 16))) ns)))
               else if list_all (fits 4) ns then
                 Inr (lit ''I'' @ b64encode (concat (map (\<lambda>n. le_bytes 4 (nat (n mod 2 ^ 32))) ns)))
               else Inl StructError))"
proof (intro conjI impI)
  assume s: "is_sequential (map JInt ns)"
  from assms obtain a b rest where ns: "ns = a # b # rest"
    by (cases ns; cases "tl ns") auto
  with s show "numeric_array (map JInt ns) =
              Some (Inr (JObj [(lit ''s'', JInt (ns ! 0)), (lit ''d'', JInt (ns ! 1 - ns ! 0)),
                               (lit ''n'', JInt (int (length ns)))]))"
    unfolding numeric_array_def all_of_as_int_map
    by (simp add: delta_record_def py_sub_def)
next
  assume n: "\<not> is_sequential (map JInt ns) \<and> \<not> is_constant (map JInt ns)"
  with assms show "numeric_array (map JInt ns) =
              Some (case pack_numbers ns of Inl e \<Rightarrow> Inl e | Inr s \<Rightarrow> Inr (JStr s))"
    unfolding numeric_array_def all_of_as_int_map by simp
  have r1: "list_all (\<lambda>n. - 128 \<le> n \<and> n \<le> 127) ns = list_all (fits 1) ns"
    and r2: "list_all (\<lambda>n. - 32768 \<le> n \<and> n \<le> 32767) ns = list_all (fits 2) ns"
    by (induction ns) (auto simp: fits_def)
  show "pack_numbers ns =
              (if list_all (fits 1) ns then
                 Inr (lit ''B'' @ b64encode (concat (map (\<lambda>n. le_bytes 1 (nat (n mod 2 ^ 8))) ns)))
               else if list_all (fits 2) ns then
                 Inr (lit ''H'' @ b64encode (concat (map (\<lambda>n. le_bytes 2 (nat (n mod 2 ^ 16))) ns)))
               else if list_all (fits 4) ns then
                 Inr (lit ''I'' @ b64encode (concat (map (\<lambda>n. le_bytes 4 (nat (n mod 2 ^ 32))) ns)))
               else Inl StructError)"
    unfolding pack_numbers_def r1 r2
    using struct_pack_fits [of 1 ns] struct_pack_fits [of 2 ns] struct_pack_fits [of 4 ns]
      struct_pack_raises [of 4 ns]
    by (cases "list_all (fits 1) ns"; cases "list_all (fits 2) ns"; cases "list_all (fits 4) ns")
      simp_all
qed

lemma three_numbers:
  "\<not> is_sequential (map JInt [1, 5, 200]) \<and> \<not> is_constant (map JInt [1, 5, 200])"
  by (simp add: is_sequential_def is_constant_def)

lemma three_numbers_width: "\<not> list_all (fits 1) [1, 5, 200] \<and> list_all (fits 2) [1, 5, 200]"
  by (simp add: fits_def)

theorem narrowest_integer_width_witness:
  "3 \<le> length [1, 5, 200 :: int] \<and>
   \<not> is_sequential (map JInt [1, 5, 200]) \<and> \<not> is_constant (map JInt [1, 5, 200]) \<and>
   \<not> list_all (fits 1) [1, 5, 200] \<and> list_all (fits 2) [1, 5, 200] \<and>
   pack_numbers [1, 5, 200] =
     Inr (lit ''H'' @ b64encode (concat (map (\<lambda>n. le_bytes 2 (nat (n mod 2 ^ 16))) [1, 5, 200])))"
proof -
  have l: "3 \<le> length [1, 5, 200 :: int]"
    by simp
  from narrowest_integer_width [OF l] three_numbers three_numbers_width
  have "pack_numbers [1, 5, 200] =
     Inr (lit ''H'' @ b64encode (concat (map (\<lambda>n. le_bytes 2 (nat (n mod 2 ^ 16))) [1, 5, 200])))"
    by presburger
  with l three_numbers three_numbers_width show ?thesis
    by blast
qed

text \<open>
  The encoder of \<open>json_compressor.py\<close> has no packing step: its \<open>compress_json\<close>
  returns a text for every value.
\<close>

theorem jc_compress_json_returns: "\<exists>text. jc_compress_json data = Inr text"
proof -
  from jc_total(1) [of data new_compressor] obtain r st where
    "jc_compress_value data new_compressor = Inr (r, st)"
    by blast
  then show ?thesis
    by (simp add: jc_compress_json_def jc_compress_def Let_def)
qed

end
